theory Spec2Isabelle
  imports Main "HOL-Library.AList"
begin

section \<open>Values of the row objects\<close>

text \<open>
  The ingestion pipeline of \<^verbatim>\<open>src/index.js\<close> builds one plain object per input line
  (\<^verbatim>\<open>setNestedProperty\<close>), maps it to the fixed four-column row (\<^verbatim>\<open>transformForDb\<close>) and
  inserts the rows in batches (\<^verbatim>\<open>insertDataBatch\<close>, the handler of \<^verbatim>\<open>POST /upload\<close>).

  The values that occur in a row object are modelled by \<open>jsval\<close>. An object is the list of
  its own enumerable properties in insertion order. A Number is a double: \<open>Num n\<close> is the
  Number whose value is the integer \<open>n\<close>, which every integer up to \<open>2 ^ 53\<close> in magnitude
  has. \<open>Rounded n\<close> is the Number that the runtime makes of an integer \<open>n\<close> beyond that
  magnitude: a neighbouring double, or \<^verbatim>\<open>Infinity\<close> or \<^verbatim>\<open>-Infinity\<close> beyond those. Of a rounded
  Number only its truthiness is used, not its value.
  Strings are lists of characters with codes below 256. JavaScript enumerates the keys that
  are array indices before the others; the list keeps the order of insertion for all keys.
\<close>

datatype jsval =
    Undefined
  | Null
  | Str string
  | Num int
  | Rounded int
  | NaN
  | Obj "(string \<times> jsval) list"

type_synonym props = "(string \<times> jsval) list"

text \<open>
  What a call does: it returns a value, it throws, or it leaves the part of the runtime
  that is modelled here (\<open>Unmodelled\<close>). The last outcome is reported wherever a property
  name is resolved by a built-in prototype object (\<^verbatim>\<open>Object.prototype\<close>,
  \<^verbatim>\<open>String.prototype\<close>, \<^verbatim>\<open>Number.prototype\<close>) or by the characters of a string: there the
  program reads or writes objects shared by the whole process, not the row object.
\<close>

datatype error = TypeError | ConnectError

datatype 'a outcome = Returns 'a | Throws error | Unmodelled

fun and_then :: "'a outcome \<Rightarrow> ('a \<Rightarrow> 'b outcome) \<Rightarrow> 'b outcome" where
  "and_then (Returns x) f = f x"
| "and_then (Throws e) f = Throws e"
| "and_then Unmodelled f = Unmodelled"

text \<open>Truthiness, and the operator \<^verbatim>\<open>a || b\<close> on values.\<close>

fun truthy :: "jsval \<Rightarrow> bool" where
  "truthy Undefined = False"
| "truthy Null = False"
| "truthy (Str s) = (s \<noteq> [])"
| "truthy (Num n) = (n \<noteq> 0)"
| "truthy (Rounded n) = (n \<noteq> 0)"
| "truthy NaN = False"
| "truthy (Obj ps) = True"

definition or_else :: "jsval \<Rightarrow> jsval \<Rightarrow> jsval" where
  "or_else a b = (if truthy a then a else b)"

subsection \<open>Characters, splitting, trimming\<close>

definition is_space :: "char \<Rightarrow> bool" where
  \<comment> \<open>TAB, LF, VT, FF, CR, SP, NBSP: the white space of \<^verbatim>\<open>trim\<close> and \<^verbatim>\<open>parseInt\<close> below 256\<close>
  "is_space c = ((of_char c :: nat) \<in> {9, 10, 11, 12, 13, 32, 160})"

definition is_digit :: "char \<Rightarrow> bool" where
  "is_digit c = (48 \<le> (of_char c :: nat) \<and> (of_char c :: nat) \<le> 57)"

definition digit_of :: "char \<Rightarrow> nat" where
  "digit_of c = of_char c - 48"

definition digit_char :: "nat \<Rightarrow> char" where
  "digit_char d = char_of (48 + d)"

text \<open>\<^verbatim>\<open>s.split(c)\<close> for a one-character separator: never empty, \<^verbatim>\<open>''.split(c)\<close> is \<^verbatim>\<open>['']\<close>.\<close>

fun split_on :: "char \<Rightarrow> string \<Rightarrow> string list" where
  "split_on c [] = [Nil]"
| "split_on c (x # xs) =
     (if x = c then Nil # split_on c xs
      else (let r = split_on c xs in (x # hd r) # tl r))"

definition trim :: "string \<Rightarrow> string" where
  "trim s = rev (dropWhile is_space (rev (dropWhile is_space s)))"

subsection \<open>\<^verbatim>\<open>parseInt(value, 10)\<close> and the text of a number\<close>

text \<open>
  \<^verbatim>\<open>parseInt\<close> skips leading white space, reads an optional sign and the longest run of
  decimal digits, and ignores the rest; with no digit it returns \<^verbatim>\<open>NaN\<close>. The integer read
  is returned as it is up to \<open>2 ^ 53\<close> in magnitude, and rounded to a Number beyond.
\<close>

definition digits_value :: "string \<Rightarrow> nat" where
  "digits_value ds = foldl (\<lambda>a c. 10 * a + digit_of c) 0 ds"

definition parseInt :: "string \<Rightarrow> jsval" where
  "parseInt s =
     (let t = dropWhile is_space s;
          neg = (t \<noteq> [] \<and> hd t = CHR ''-'');
          u = (if t \<noteq> [] \<and> (hd t = CHR ''-'' \<or> hd t = CHR ''+'') then tl t else t);
          ds = takeWhile is_digit u
      in if ds = [] then NaN
         else if int (digits_value ds) \<le> 2 ^ 53
              then Num ((if neg then - 1 else 1) * int (digits_value ds))
              else Rounded ((if neg then - 1 else 1) * int (digits_value ds)))"

fun dec_nat :: "nat \<Rightarrow> string" where
  "dec_nat n = (if n < 10 then [digit_char n] else dec_nat (n div 10) @ [digit_char (n mod 10)])"

declare dec_nat.simps [simp del]

definition dec_int :: "int \<Rightarrow> string" where
  "dec_int i = (if i < 0 then CHR ''-'' # dec_nat (nat (- i)) else dec_nat (nat i))"

section \<open>Property access\<close>

text \<open>
  The names that \<^verbatim>\<open>Object.prototype\<close>, \<^verbatim>\<open>String.prototype\<close> and \<^verbatim>\<open>Number.prototype\<close>
  define. A read of such a name that is not an own property is answered by the prototype.
\<close>

definition object_proto_keys :: "string list" where
  "object_proto_keys =
     [''constructor'', ''__defineGetter__'', ''__defineSetter__'', ''hasOwnProperty'',
      ''__lookupGetter__'', ''__lookupSetter__'', ''isPrototypeOf'', ''propertyIsEnumerable'',
      ''toString'', ''valueOf'', ''__proto__'', ''toLocaleString'']"

definition string_proto_keys :: "string list" where
  "string_proto_keys =
     [''length'', ''at'', ''charAt'', ''charCodeAt'', ''codePointAt'', ''concat'', ''endsWith'',
      ''includes'', ''indexOf'', ''isWellFormed'', ''lastIndexOf'', ''localeCompare'', ''match'',
      ''matchAll'', ''normalize'', ''padEnd'', ''padStart'', ''repeat'', ''replace'',
      ''replaceAll'', ''search'', ''slice'', ''split'', ''startsWith'', ''substr'', ''substring'',
      ''toLocaleLowerCase'', ''toLocaleUpperCase'', ''toLowerCase'', ''toUpperCase'',
      ''toWellFormed'', ''trim'', ''trimEnd'', ''trimStart'', ''trimLeft'', ''trimRight'',
      ''anchor'', ''big'', ''blink'', ''bold'', ''fixed'', ''fontcolor'', ''fontsize'',
      ''italics'', ''link'', ''small'', ''strike'', ''sub'', ''sup'']"

definition number_proto_keys :: "string list" where
  "number_proto_keys = [''toExponential'', ''toFixed'', ''toPrecision'']"

definition builtin_on :: "jsval \<Rightarrow> string \<Rightarrow> bool" where
  \<comment> \<open>the name is answered by the runtime, not by the row object, when it is not an own property\<close>
  "builtin_on cur k =
     (case cur of
        Obj ps \<Rightarrow> k \<in> set object_proto_keys
      | Str s \<Rightarrow> k \<in> set object_proto_keys \<or> k \<in> set string_proto_keys
                  \<or> (k \<noteq> [] \<and> list_all is_digit k)
      | _ \<Rightarrow> k \<in> set object_proto_keys \<or> k \<in> set number_proto_keys)"

text \<open>
  \<^verbatim>\<open>current[key]\<close> as a read. On \<^verbatim>\<open>undefined\<close> and \<^verbatim>\<open>null\<close> it throws a \<^verbatim>\<open>TypeError\<close>; on
  an object it is the own property or \<^verbatim>\<open>undefined\<close>; on a string or a number
  every name that the runtime does not answer is \<^verbatim>\<open>undefined\<close>.
\<close>

definition get_prop :: "jsval \<Rightarrow> string \<Rightarrow> jsval outcome" where
  "get_prop cur k =
     (case cur of
        Undefined \<Rightarrow> Throws TypeError
      | Null \<Rightarrow> Throws TypeError
      | Obj ps \<Rightarrow>
          (case map_of ps k of
             Some v \<Rightarrow> Returns v
           | None \<Rightarrow> if builtin_on cur k then Unmodelled else Returns Undefined)
      | _ \<Rightarrow> if builtin_on cur k then Unmodelled else Returns Undefined)"

text \<open>
  \<^verbatim>\<open>current[key] = v\<close>. The file is a CommonJS module without \<^verbatim>\<open>'use strict'\<close>, so an
  assignment to a property of a string or of a number is silently ignored; on
  \<^verbatim>\<open>undefined\<close> and \<^verbatim>\<open>null\<close> it throws. On an object the property is replaced where it
  stands or appended; \<^verbatim>\<open>__proto__\<close> is the accessor of the prototype and not a property.
\<close>

definition put_prop :: "jsval \<Rightarrow> string \<Rightarrow> jsval \<Rightarrow> jsval outcome" where
  "put_prop cur k v =
     (case cur of
        Undefined \<Rightarrow> Throws TypeError
      | Null \<Rightarrow> Throws TypeError
      | Obj ps \<Rightarrow> if k = ''__proto__'' then Unmodelled else Returns (Obj (AList.update k v ps))
      | _ \<Rightarrow> Returns cur)"

section \<open>\<^verbatim>\<open>setNestedProperty\<close>\<close>

text \<open>
  The body of \<^verbatim>\<open>setNestedProperty\<close> after the test of the empty string, as a walk from the
  current node: for every key but the last,
  \<^verbatim>\<open>if (!current[key]) current[key] = {}; current = current[key]\<close>, and at the last key
  the assignment. The function returns the current node as the walk leaves it; a child
  object is shared with its parent, so the parent sees what the walk did below it.
\<close>

fun set_in :: "string list \<Rightarrow> jsval \<Rightarrow> jsval \<Rightarrow> jsval outcome" where
  "set_in [] v cur = Returns cur"
| "set_in [lastKey] v cur = put_prop cur lastKey v"
| "set_in (key # keys) v cur =
     and_then (get_prop cur key) (\<lambda>c.
     and_then (if \<not> truthy c then put_prop cur key (Obj []) else Returns cur) (\<lambda>cur1.
     and_then (get_prop cur1 key) (\<lambda>child.
     and_then (set_in keys v child) (\<lambda>child'.
     put_prop cur1 key child'))))"

definition props_of :: "jsval \<Rightarrow> props" where
  "props_of v = (case v of Obj ps \<Rightarrow> ps | _ \<Rightarrow> [])"

text \<open>
  \<^verbatim>\<open>setNestedProperty(obj, path, value)\<close>, with \<open>obj\<close> the own properties of the row object
  and \<open>value\<close> what \<^verbatim>\<open>values[index]\<close> is: a string, or \<^verbatim>\<open>undefined\<close> (\<open>None\<close>). The value
  stored at the last key is \<^verbatim>\<open>parseInt(value, 10)\<close> when \<^verbatim>\<open>path === 'age' && value\<close>, else the
  value itself; \<^verbatim>\<open>undefined\<close> and the empty string are falsy.
\<close>

definition stored_value :: "string \<Rightarrow> string option \<Rightarrow> jsval" where
  "stored_value path v =
     (case v of
        None \<Rightarrow> Undefined
      | Some s \<Rightarrow> if path = ''age'' \<and> s \<noteq> [] then parseInt s else Str s)"

definition setNestedProperty :: "props \<Rightarrow> string \<Rightarrow> string option \<Rightarrow> props outcome" where
  "setNestedProperty obj path v =
     (if v = Some [] then Returns obj
      else and_then (set_in (split_on CHR ''.'' path) (stored_value path v) (Obj obj))
             (\<lambda>r. Returns (props_of r)))"

section \<open>\<^verbatim>\<open>transformForDb\<close>\<close>

record dbRow =
  name :: jsval
  age :: jsval
  address :: jsval
  additional_info :: jsval

definition own :: "props \<Rightarrow> string \<Rightarrow> jsval" where
  \<comment> \<open>\<^verbatim>\<open>obj.k\<close> for a name that no prototype defines\<close>
  "own ps k = (case map_of ps k of Some v \<Rightarrow> v | None \<Rightarrow> Undefined)"

definition opt_prop :: "jsval \<Rightarrow> string \<Rightarrow> jsval" where
  \<comment> \<open>\<^verbatim>\<open>x?.k\<close> for a name that no prototype defines\<close>
  "opt_prop x k = (case x of Obj ps \<Rightarrow> own ps k | _ \<Rightarrow> Undefined)"

definition rest_props :: "string list \<Rightarrow> props \<Rightarrow> props" where
  \<comment> \<open>the rest element of the destructuring: the own properties not named before it\<close>
  "rest_props ks ps = filter (\<lambda>p. fst p \<notin> set ks) ps"

text \<open>
  The text of a value inside a template literal. An object without own \<^verbatim>\<open>toString\<close>
  and \<^verbatim>\<open>valueOf\<close> prints as \<^verbatim>\<open>[object Object]\<close>; a number prints in decimal below \<open>2 ^ 53\<close>.
\<close>

definition template_text :: "jsval \<Rightarrow> string outcome" where
  "template_text v =
     (case v of
        Undefined \<Rightarrow> Returns ''undefined''
      | Null \<Rightarrow> Returns ''null''
      | Str s \<Rightarrow> Returns s
      | Num n \<Rightarrow> if \<bar>n\<bar> < 2 ^ 53 then Returns (dec_int n) else Unmodelled
      | Rounded n \<Rightarrow> Unmodelled
      | NaN \<Rightarrow> Returns ''NaN''
      | Obj ps \<Rightarrow>
          if map_of ps ''toString'' = None \<and> map_of ps ''valueOf'' = None
          then Returns ''[object Object]'' else Unmodelled)"

definition transformForDb :: "props \<Rightarrow> dbRow outcome" where
  "transformForDb obj =
     (let name_v = own obj ''name'';
          age_v = own obj ''age'';
          address_v = own obj ''address'';
          additional_info_v = Obj (rest_props [''name'', ''age'', ''address''] obj)
      in and_then (template_text (or_else (opt_prop name_v ''firstName'') (Str []))) (\<lambda>first.
         and_then (template_text (or_else (opt_prop name_v ''lastName'') (Str []))) (\<lambda>last.
         Returns \<lparr> name = Str (trim (first @ '' '' @ last)),
                   age = or_else age_v (Num 0),
                   address = or_else address_v Null,
                   additional_info = or_else additional_info_v Null \<rparr>)))"

section \<open>The handler of \<^verbatim>\<open>POST /upload\<close>\<close>

subsection \<open>One line to one row\<close>

definition value_at :: "string list \<Rightarrow> nat \<Rightarrow> string option" where
  \<comment> \<open>\<^verbatim>\<open>values[index]\<close>: \<^verbatim>\<open>undefined\<close> past the end of the array\<close>
  "value_at vals index = (if index < length vals then Some (vals ! index) else None)"

text \<open>
  \<^verbatim>\<open>headers.forEach((header, index) => setNestedProperty(rowObject, header, values[index]))\<close>,
  from the column \<open>index\<close> on. An exception leaves the loop.
\<close>

fun assign_columns :: "string list \<Rightarrow> nat \<Rightarrow> string list \<Rightarrow> props \<Rightarrow> props outcome" where
  "assign_columns [] index vals rowObject = Returns rowObject"
| "assign_columns (header # hs) index vals rowObject =
     and_then (setNestedProperty rowObject header (value_at vals index))
       (assign_columns hs (Suc index) vals)"

definition row_object :: "string list \<Rightarrow> string list \<Rightarrow> props outcome" where
  "row_object hs vals = assign_columns hs 0 vals []"

definition row_of_line :: "string list \<Rightarrow> string \<Rightarrow> dbRow outcome" where
  "row_of_line hs line = and_then (row_object hs (split_on CHR '','' line)) transformForDb"

subsection \<open>\<^verbatim>\<open>insertDataBatch\<close>\<close>

text \<open>
  The store is a parameter: \<open>db n\<close> is what it does with the \<open>n\<close>-th batch handed to it.
  \<^verbatim>\<open>pool.connect()\<close> is awaited before the \<^verbatim>\<open>try\<close>, so a rejected connection leaves
  \<^verbatim>\<open>insertDataBatch\<close> as an exception; a rejected query is caught and logged inside it.
  The trace records each query: the rows of the batch and whether it was stored.
\<close>

datatype db_reply = ConnectRejected | QueryRejected | QueryDone

datatype event = Inserted "dbRow list" | InsertFailed "dbRow list"

fun rows_of :: "event \<Rightarrow> dbRow list" where
  "rows_of (Inserted b) = b"
| "rows_of (InsertFailed b) = b"

fun failed :: "event \<Rightarrow> bool" where
  "failed (Inserted b) = False"
| "failed (InsertFailed b) = True"

definition insertDataBatch ::
  "(nat \<Rightarrow> db_reply) \<Rightarrow> dbRow list \<Rightarrow> event list \<Rightarrow> event list \<times> unit outcome" where
  "insertDataBatch db b evs =
     (if length b = 0 then (evs, Returns ())
      else case db (length evs) of
             ConnectRejected \<Rightarrow> (evs, Throws ConnectError)
           | QueryRejected \<Rightarrow> (evs @ [InsertFailed b], Returns ())
           | QueryDone \<Rightarrow> (evs @ [Inserted b], Returns ()))"

subsection \<open>The loop over the lines\<close>

record upload_state =
  headers :: "string list"
  isFirstLine :: bool
  batch :: "dbRow list"
  events :: "event list"

definition BATCH_SIZE :: nat where
  "BATCH_SIZE = 1000"

datatype response = Status200 | Status500

definition on_line ::
  "(nat \<Rightarrow> db_reply) \<Rightarrow> string \<Rightarrow> upload_state \<Rightarrow> upload_state \<times> unit outcome" where
  "on_line db line s =
     (if isFirstLine s
      then (s\<lparr>headers := split_on CHR '','' line, isFirstLine := False\<rparr>, Returns ())
      else case row_of_line (headers s) line of
             Throws e \<Rightarrow> (s, Throws e)
           | Unmodelled \<Rightarrow> (s, Unmodelled)
           | Returns dbRow \<Rightarrow>
               (let s1 = s\<lparr>batch := batch s @ [dbRow]\<rparr>
                in if length (batch s1) \<ge> BATCH_SIZE
                   then (case insertDataBatch db (batch s1) (events s1) of
                           (evs, Returns u) \<Rightarrow> (s1\<lparr>batch := [], events := evs\<rparr>, Returns ())
                         | (evs, r) \<Rightarrow> (s1\<lparr>events := evs\<rparr>, r))
                   else (s1, Returns ())))"

fun for_await ::
  "(nat \<Rightarrow> db_reply) \<Rightarrow> string list \<Rightarrow> upload_state \<Rightarrow> upload_state \<times> unit outcome" where
  "for_await db [] s = (s, Returns ())"
| "for_await db (line # rest) s =
     (case on_line db line s of
        (s', Returns u) \<Rightarrow> for_await db rest s'
      | (s', r) \<Rightarrow> (s', r))"

definition respond :: "unit outcome \<Rightarrow> response outcome" where
  \<comment> \<open>the end of the \<^verbatim>\<open>try\<close> answers 200, the \<^verbatim>\<open>catch\<close> answers 500\<close>
  "respond r = (case r of Returns u \<Rightarrow> Returns Status200
                        | Throws e \<Rightarrow> Returns Status500
                        | Unmodelled \<Rightarrow> Unmodelled)"

text \<open>
  The handler on the lines of an existing file: the trace of the queries and the answer.
\<close>

definition upload :: "(nat \<Rightarrow> db_reply) \<Rightarrow> string list \<Rightarrow> event list \<times> response outcome" where
  "upload db lines =
     (case for_await db lines \<lparr>headers = [], isFirstLine = True, batch = [], events = []\<rparr> of
        (s, Returns u) \<Rightarrow>
          (if length (batch s) > 0
           then (case insertDataBatch db (batch s) (events s) of (evs, r) \<Rightarrow> (evs, respond r))
           else (events s, Returns Status200))
      | (s, r) \<Rightarrow> (events s, respond r))"

section \<open>Notions used to state the properties\<close>

text \<open>
  A key is plain when no built-in prototype and no string answers it; a path of plain
  keys keeps \<^verbatim>\<open>setNestedProperty\<close> inside the row object.
\<close>

definition plain_key :: "string \<Rightarrow> bool" where
  "plain_key k =
     (k \<notin> set object_proto_keys \<and> k \<notin> set string_proto_keys \<and> k \<notin> set number_proto_keys
      \<and> (k = [] \<or> \<not> list_all is_digit k))"

text \<open>Reading a path back: \<^verbatim>\<open>obj?.k1?.k2 ...\<close> on plain keys.\<close>

fun lookup_path :: "string list \<Rightarrow> jsval \<Rightarrow> jsval" where
  "lookup_path [] c = c"
| "lookup_path (k # ks) c = lookup_path ks (opt_prop c k)"

text \<open>
  The first own property on the way of a path, before its last key, that holds a value
  that is not an object, with the number of keys that follow it.
\<close>

fun leaf_on_path :: "string list \<Rightarrow> props \<Rightarrow> (jsval \<times> nat) option" where
  "leaf_on_path (k # k2 # ks) ps =
     (case map_of ps k of
        None \<Rightarrow> None
      | Some (Obj cs) \<Rightarrow> leaf_on_path (k2 # ks) cs
      | Some c \<Rightarrow> Some (c, length (k2 # ks)))"
| "leaf_on_path ks ps = None"

section \<open>Evaluation on concrete input\<close>

lemmas eval = setNestedProperty_def stored_value_def get_prop_def put_prop_def builtin_on_def
  object_proto_keys_def string_proto_keys_def number_proto_keys_def props_of_def row_object_def
  row_of_line_def value_at_def transformForDb_def own_def opt_prop_def rest_props_def
  template_text_def or_else_def trim_def is_space_def parseInt_def is_digit_def digits_value_def
  digit_of_def

section \<open>The walk of \<^verbatim>\<open>setNestedProperty\<close>\<close>

lemma and_then_Returns_iff:
  "and_then m f = Returns y \<longleftrightarrow> (\<exists>x. m = Returns x \<and> f x = Returns y)"
  by (cases m) auto

lemma plain_not_builtin: "plain_key k \<Longrightarrow> \<not> builtin_on c k"
  by (cases c) (auto simp: plain_key_def builtin_on_def)

lemma plain_not_proto: "plain_key k \<Longrightarrow> k \<noteq> ''__proto__''"
  by (auto simp: plain_key_def object_proto_keys_def)

lemma get_prop_Obj: "plain_key k \<Longrightarrow> get_prop (Obj ps) k = Returns (own ps k)"
  by (auto simp: get_prop_def own_def plain_not_builtin split: option.splits)

lemma put_prop_Obj: "plain_key k \<Longrightarrow> put_prop (Obj ps) k v = Returns (Obj (AList.update k v ps))"
  by (simp add: put_prop_def plain_not_proto)

lemma own_update: "own (AList.update k v ps) k = v"
  by (simp add: own_def update_conv')

lemma set_in_Undefined: "ks \<noteq> [] \<Longrightarrow> set_in ks v Undefined = Throws TypeError"
  by (cases "(ks, v, Undefined)" rule: set_in.cases) (auto simp: get_prop_def put_prop_def)

lemma set_in_prim:
  assumes "\<And>cs. c \<noteq> Obj cs" "truthy c" "list_all plain_key (k # ks)"
  shows "set_in (k # ks) v c = (if ks = [] then Returns c else Throws TypeError)"
proof (cases ks)
  case Nil
  with assms show ?thesis by (cases c) (auto simp: put_prop_def)
next
  case (Cons k2 rest)
  have g: "get_prop c k = Returns Undefined"
    using assms by (cases c) (auto simp: get_prop_def plain_not_builtin)
  have p: "put_prop c k (Obj []) = Returns c"
    using assms by (cases c) (auto simp: put_prop_def)
  show ?thesis using Cons g p by (simp add: set_in_Undefined)
qed

lemma set_in_leaf:
  assumes "leaf_on_path ks ps = Some (c, n)" "truthy c" "list_all plain_key ks"
  shows "set_in ks v (Obj ps) = (if n = 1 then Returns (Obj ps) else Throws TypeError)"
  using assms
proof (induction ks ps rule: leaf_on_path.induct)
  case (1 k k2 ks ps)
  from 1(2) obtain d where d: "map_of ps k = Some d" by (auto split: option.splits)
  have pk: "plain_key k" and pks: "list_all plain_key (k2 # ks)" using 1(4) by auto
  have own: "own ps k = d" using d by (simp add: own_def)
  have triv: "AList.update k d ps = ps" using d by (simp add: update_triv)
  show ?case
  proof (cases "\<exists>cs. d = Obj cs")
    case True
    then obtain cs where cs: "d = Obj cs" by blast
    have "leaf_on_path (k2 # ks) cs = Some (c, n)" using 1(2) d cs by simp
    then have ih: "set_in (k2 # ks) v (Obj cs) = (if n = 1 then Returns (Obj cs) else Throws TypeError)"
      using 1(1)[OF d cs] 1(3) pks by simp
    show ?thesis using ih triv cs own pk
      by (simp add: get_prop_Obj put_prop_Obj)
  next
    case False
    then have nobj: "\<And>cs. d \<noteq> Obj cs" by blast
    have cn: "c = d" "n = length (k2 # ks)" using 1(2) d False by (cases d; auto)+
    have td: "truthy d" using 1(3) cn by simp
    have sub: "set_in (k2 # ks) v d = (if ks = [] then Returns d else Throws TypeError)"
      using set_in_prim[OF nobj td pks] .
    show ?thesis using sub triv own pk td cn
      by (simp add: get_prop_Obj put_prop_Obj)
  qed
qed simp_all


lemma leaf_on_path_fresh: "leaf_on_path ks [] = None"
  by (cases "(ks, []::props)" rule: leaf_on_path.cases) auto

lemma opt_prop_Obj: "opt_prop (Obj ps) k = own ps k"
  by (simp add: opt_prop_def)

lemma set_in_stores:
  assumes "ks \<noteq> []" "list_all plain_key ks"
    and "case leaf_on_path ks ps of None \<Rightarrow> True | Some (c, n) \<Rightarrow> \<not> truthy c"
  shows "\<exists>ps'. set_in ks v (Obj ps) = Returns (Obj ps') \<and> lookup_path ks (Obj ps') = v"
  using assms
proof (induction ks arbitrary: ps)
  case Nil
  then show ?case by simp
next
  case (Cons k ks)
  have pk: "plain_key k" using Cons.prems by simp
  show ?case
  proof (cases ks)
    case Nil
    then show ?thesis using pk by (simp add: put_prop_Obj opt_prop_Obj own_update)
  next
    case (Cons k2 rest)
    have pks: "list_all plain_key ks" "ks \<noteq> []" using Cons.prems Cons by auto
    show ?thesis
    proof (cases "\<exists>cs. own ps k = Obj cs")
      case True
      then obtain cs where cs: "own ps k = Obj cs" by blast
      then have m: "map_of ps k = Some (Obj cs)" by (auto simp: own_def split: option.splits)
      have "case leaf_on_path ks cs of None \<Rightarrow> True | Some (c, n) \<Rightarrow> \<not> truthy c"
        using Cons.prems(3) m Cons by simp
      from Cons.IH[OF pks(2) pks(1) this]
      obtain cs' where r: "set_in ks v (Obj cs) = Returns (Obj cs')" "lookup_path ks (Obj cs') = v"
        by blast
      show ?thesis using r cs pk Cons
        by (simp add: get_prop_Obj put_prop_Obj opt_prop_Obj own_update)
    next
      case False
      have nt: "\<not> truthy (own ps k)"
      proof (cases "map_of ps k")
        case None
        then show ?thesis by (simp add: own_def)
      next
        case (Some d)
        then have "own ps k = d" by (simp add: own_def)
        with False Some Cons.prems(3) Cons show ?thesis by (cases d) auto
      qed
      have "case leaf_on_path ks [] of None \<Rightarrow> True | Some (c, n) \<Rightarrow> \<not> truthy c"
        by (simp add: leaf_on_path_fresh)
      from Cons.IH[OF pks(2) pks(1) this]
      obtain cs' where r: "set_in ks v (Obj []) = Returns (Obj cs')" "lookup_path ks (Obj cs') = v"
        by blast
      show ?thesis using r nt pk Cons
        by (simp add: get_prop_Obj put_prop_Obj opt_prop_Obj own_update)
    qed
  qed
qed

lemma value_at_append: "i < length vs \<Longrightarrow> value_at (vs @ extra) i = value_at vs i"
  by (simp add: value_at_def nth_append)

lemma assign_columns_extra:
  "i + length hs \<le> length vs \<Longrightarrow> assign_columns hs i (vs @ extra) obj = assign_columns hs i vs obj"
proof (induction hs arbitrary: i obj)
  case Nil
  then show ?case by simp
next
  case (Cons h hs)
  then have "i < length vs" by simp
  then have v: "value_at (vs @ extra) i = value_at vs i" by (rule value_at_append)
  have "assign_columns hs (Suc i) (vs @ extra) = assign_columns hs (Suc i) vs"
    by (rule ext) (use Cons in simp)
  then show ?case by (simp add: v)
qed

section \<open>Numbers and their decimal text\<close>

lemma of_char_digit_char: "d < 10 \<Longrightarrow> (of_char (digit_char d) :: nat) = 48 + d"
  by (simp add: digit_char_def)

lemma is_digit_digit_char: "d < 10 \<Longrightarrow> is_digit (digit_char d)"
  by (simp add: is_digit_def of_char_digit_char)

lemma digit_of_digit_char: "d < 10 \<Longrightarrow> digit_of (digit_char d) = d"
  by (simp add: digit_of_def of_char_digit_char)

lemma is_digit_not_space: "is_digit c \<Longrightarrow> \<not> is_space c"
  by (auto simp: is_digit_def is_space_def)

lemma is_digit_not_sign: "is_digit c \<Longrightarrow> c \<noteq> CHR ''-'' \<and> c \<noteq> CHR ''+''"
  by (auto simp: is_digit_def)

lemma dec_nat_digits: "list_all is_digit (dec_nat n)"
proof (induction n rule: dec_nat.induct)
  case (1 n)
  show ?case
  proof (cases "n < 10")
    case True
    then show ?thesis by (subst dec_nat.simps) (simp add: is_digit_digit_char)
  next
    case False
    then show ?thesis using 1 by (subst dec_nat.simps) (simp add: is_digit_digit_char)
  qed
qed

lemma dec_nat_nonempty: "dec_nat n \<noteq> []"
  by (subst dec_nat.simps) simp

lemma digits_value_snoc: "digits_value (ds @ [c]) = 10 * digits_value ds + digit_of c"
  by (simp add: digits_value_def)

lemma digits_value_dec_nat: "digits_value (dec_nat n) = n"
proof (induction n rule: dec_nat.induct)
  case (1 n)
  show ?case
  proof (cases "n < 10")
    case True
    then show ?thesis
      by (subst dec_nat.simps) (simp add: digits_value_def digit_of_digit_char)
  next
    case False
    then have "digits_value (dec_nat (n div 10)) = n div 10" using 1 by simp
    then show ?thesis using False
      by (subst dec_nat.simps) (simp add: digits_value_snoc digit_of_digit_char)
  qed
qed

lemma parseInt_digits:
  assumes "ds \<noteq> []" "list_all is_digit ds" "int (digits_value ds) \<le> 2 ^ 53"
  shows "parseInt ds = Num (int (digits_value ds))"
proof -
  obtain c cs where ds: "ds = c # cs" using assms(1) by (cases ds) auto
  have c: "is_digit c" using assms(2) ds by simp
  have tw: "takeWhile is_digit ds = ds" using assms(2) by (simp add: list_all_iff)
  have dw: "dropWhile is_space ds = ds" using ds c by (simp add: is_digit_not_space)
  have sg: "hd ds \<noteq> CHR ''-''" "hd ds \<noteq> CHR ''+''" using ds is_digit_not_sign[OF c] by simp_all
  show ?thesis using assms(1,3) by (simp add: parseInt_def Let_def tw dw sg)
qed

lemma parseInt_minus_digits:
  assumes "ds \<noteq> []" "list_all is_digit ds" "int (digits_value ds) \<le> 2 ^ 53"
  shows "parseInt (CHR ''-'' # ds) = Num (- int (digits_value ds))"
proof -
  have tw: "takeWhile is_digit ds = ds" using assms(2) by (simp add: list_all_iff)
  have sp: "\<not> is_space CHR ''-''" by (simp add: is_space_def)
  show ?thesis using assms(1,3) by (simp add: parseInt_def Let_def tw sp)
qed

lemma parseInt_dec_int:
  assumes "\<bar>i\<bar> \<le> 2 ^ 53"
  shows "parseInt (dec_int i) = Num i"
proof (cases "i < 0")
  case True
  then have "int (digits_value (dec_nat (nat (- i)))) \<le> 2 ^ 53"
    using assms by (simp add: digits_value_dec_nat)
  then show ?thesis using True
    by (simp add: dec_int_def parseInt_minus_digits dec_nat_nonempty dec_nat_digits
        digits_value_dec_nat)
next
  case False
  then have "int (digits_value (dec_nat (nat i))) \<le> 2 ^ 53"
    using assms by (simp add: digits_value_dec_nat)
  then show ?thesis using False
    by (simp add: dec_int_def parseInt_digits dec_nat_nonempty dec_nat_digits
        digits_value_dec_nat)
qed

lemma takeWhile_digits_rest:
  assumes "list_all is_digit ds" "rest = [] \<or> \<not> is_digit (hd rest)"
  shows "takeWhile is_digit (ds @ rest) = ds"
proof -
  have "takeWhile is_digit rest = []" using assms(2) by (cases rest) auto
  then show ?thesis using assms(1) by (simp add: list_all_iff takeWhile_append2)
qed

lemma parseInt_signed:
  assumes "c = CHR ''-'' \<or> c = CHR ''+''" "list_all is_digit ds"
    and "rest = [] \<or> \<not> is_digit (hd rest)"
  shows "parseInt (c # ds @ rest) =
           (if ds = [] then NaN
            else if int (digits_value ds) \<le> 2 ^ 53
                 then Num ((if c = CHR ''-'' then - 1 else 1) * int (digits_value ds))
                 else Rounded ((if c = CHR ''-'' then - 1 else 1) * int (digits_value ds)))"
proof -
  have sp: "\<not> is_space c" using assms(1) by (auto simp: is_space_def)
  have tw: "takeWhile is_digit (ds @ rest) = ds" by (rule takeWhile_digits_rest[OF assms(2,3)])
  show ?thesis using assms(1) by (auto simp: parseInt_def Let_def sp tw)
qed

lemma parseInt_unsigned:
  assumes "list_all is_digit ds" "rest = [] \<or> \<not> is_digit (hd rest)"
    and "ds = [] \<longrightarrow> rest = [] \<or> (\<not> is_space (hd rest) \<and> hd rest \<noteq> CHR ''-'' \<and> hd rest \<noteq> CHR ''+'')"
  shows "parseInt (ds @ rest) =
           (if ds = [] then NaN
            else if int (digits_value ds) \<le> 2 ^ 53 then Num (int (digits_value ds))
                 else Rounded (int (digits_value ds)))"
proof (cases "ds @ rest")
  case Nil
  then show ?thesis by (simp add: parseInt_def)
next
  case (Cons x xs)
  have tw: "takeWhile is_digit (ds @ rest) = ds" by (rule takeWhile_digits_rest[OF assms(1,2)])
  have x: "\<not> is_space x \<and> x \<noteq> CHR ''-'' \<and> x \<noteq> CHR ''+''"
  proof (cases ds)
    case Nil
    then show ?thesis using assms(3) Cons by auto
  next
    case (Cons d ds')
    then have "x = d" "is_digit d" using \<open>ds @ rest = x # xs\<close> assms(1) by auto
    then show ?thesis using is_digit_not_space is_digit_not_sign by blast
  qed
  have dw: "dropWhile is_space (ds @ rest) = ds @ rest" using Cons x by simp
  have hd: "hd (ds @ rest) = x" using Cons by simp
  have ne: "ds @ rest \<noteq> []" using Cons by simp
  show ?thesis using x unfolding parseInt_def Let_def dw hd by (simp add: tw ne)
qed

lemma parseInt_spaces:
  assumes "list_all is_space ws"
  shows "parseInt (ws @ s) = parseInt s"
proof -
  have "dropWhile is_space (ws @ s) = dropWhile is_space s"
    using assms by (simp add: list_all_iff dropWhile_append2)
  then show ?thesis by (simp add: parseInt_def)
qed

lemma parseInt_shape:
  assumes "list_all is_space ws" "sign = [] \<or> sign = ''-'' \<or> sign = ''+''"
    and "list_all is_digit ds" "rest = [] \<or> \<not> is_digit (hd rest)"
    and "sign = [] \<and> ds = [] \<longrightarrow>
           rest = [] \<or> (\<not> is_space (hd rest) \<and> hd rest \<noteq> CHR ''-'' \<and> hd rest \<noteq> CHR ''+'')"
  shows "parseInt (ws @ sign @ ds @ rest) =
           (if ds = [] then NaN
            else if int (digits_value ds) \<le> 2 ^ 53
                 then Num ((if sign = ''-'' then - 1 else 1) * int (digits_value ds))
                 else Rounded ((if sign = ''-'' then - 1 else 1) * int (digits_value ds)))"
proof (cases "sign = []")
  case True
  then show ?thesis
    using parseInt_unsigned[OF assms(3,4)] assms(5) by (simp add: parseInt_spaces[OF assms(1)])
next
  case False
  then obtain c where c: "sign = [c]" "c = CHR ''-'' \<or> c = CHR ''+''" using assms(2) by auto
  show ?thesis
    using parseInt_signed[OF c(2) assms(3,4)] c by (auto simp: parseInt_spaces[OF assms(1)])
qed

lemma parseInt_shape_exists:
  "\<exists>ws sign ds rest. v = ws @ sign @ ds @ rest
     \<and> list_all is_space ws \<and> (sign = [] \<or> sign = ''-'' \<or> sign = ''+'')
     \<and> list_all is_digit ds \<and> (rest = [] \<or> \<not> is_digit (hd rest))
     \<and> (sign = [] \<and> ds = [] \<longrightarrow>
          rest = [] \<or> (\<not> is_space (hd rest) \<and> hd rest \<noteq> CHR ''-'' \<and> hd rest \<noteq> CHR ''+''))"
proof -
  define ws where "ws = takeWhile is_space v"
  define t where "t = dropWhile is_space v"
  define sign where "sign = (if t \<noteq> [] \<and> (hd t = CHR ''-'' \<or> hd t = CHR ''+'') then [hd t] else [])"
  define u where "u = (if t \<noteq> [] \<and> (hd t = CHR ''-'' \<or> hd t = CHR ''+'') then tl t else t)"
  define ds where "ds = takeWhile is_digit u"
  define rest where "rest = dropWhile is_digit u"
  have v: "v = ws @ t" by (simp add: ws_def t_def)
  have tu: "t = sign @ u" by (auto simp: sign_def u_def)
  have u: "u = ds @ rest" by (simp add: ds_def rest_def)
  have w: "list_all is_space ws" by (simp add: ws_def list_all_iff) (meson set_takeWhileD)
  have s: "sign = [] \<or> sign = ''-'' \<or> sign = ''+''" by (auto simp: sign_def)
  have d: "list_all is_digit ds" by (simp add: ds_def list_all_iff) (meson set_takeWhileD)
  have r: "rest = [] \<or> \<not> is_digit (hd rest)" unfolding rest_def by (metis hd_dropWhile)
  have t0: "t = [] \<or> \<not> is_space (hd t)" unfolding t_def by (metis hd_dropWhile)
  have e: "sign = [] \<and> ds = [] \<longrightarrow>
          rest = [] \<or> (\<not> is_space (hd rest) \<and> hd rest \<noteq> CHR ''-'' \<and> hd rest \<noteq> CHR ''+'')"
  proof
    assume a: "sign = [] \<and> ds = []"
    then have "rest = t" using tu u by simp
    moreover have "t = [] \<or> (hd t \<noteq> CHR ''-'' \<and> hd t \<noteq> CHR ''+'')"
      using a by (auto simp: sign_def split: if_splits)
    ultimately show "rest = [] \<or> (\<not> is_space (hd rest) \<and> hd rest \<noteq> CHR ''-'' \<and> hd rest \<noteq> CHR ''+'')"
      using t0 by auto
  qed
  have "v = ws @ sign @ ds @ rest" using v tu u by simp
  with w s d r e show ?thesis by blast
qed


lemma parseInt_no_digit:
  assumes "list_all (\<lambda>c. \<not> is_digit c) s"
  shows "parseInt s = NaN"
proof -
  define t where "t = dropWhile is_space s"
  define u where "u = (if t \<noteq> [] \<and> (hd t = CHR ''-'' \<or> hd t = CHR ''+'') then tl t else t)"
  have st: "set t \<subseteq> set s" unfolding t_def by (auto dest: set_dropWhileD)
  have "set (tl t) \<subseteq> set t" by (cases t) auto
  then have "set u \<subseteq> set t" unfolding u_def by auto
  with st have "set u \<subseteq> set s" by blast
  then have "\<forall>c\<in>set u. \<not> is_digit c" using assms by (auto simp: list_all_iff)
  then have "takeWhile is_digit u = []" by (cases u) auto
  then show ?thesis unfolding u_def t_def by (simp add: parseInt_def Let_def)
qed

section \<open>The fields of a row\<close>

lemma trim_blank: "trim '' '' = []"
  by (simp add: trim_def is_space_def)

lemma transformForDb_fields:
  assumes "transformForDb obj = Returns r"
  shows "\<exists>first last.
           template_text (or_else (opt_prop (own obj ''name'') ''firstName'') (Str [])) = Returns first
         \<and> template_text (or_else (opt_prop (own obj ''name'') ''lastName'') (Str [])) = Returns last
         \<and> r = \<lparr> name = Str (trim (first @ '' '' @ last)),
                 age = or_else (own obj ''age'') (Num 0),
                 address = or_else (own obj ''address'') Null,
                 additional_info = Obj (rest_props [''name'', ''age'', ''address''] obj) \<rparr>"
  using assms unfolding transformForDb_def Let_def
  by (auto simp: and_then_Returns_iff or_else_def)

section \<open>Runs of the handler\<close>

lemma insertDataBatch_cases:
  assumes "b \<noteq> []"
  shows "insertDataBatch db b evs =
           (case db (length evs) of
              ConnectRejected \<Rightarrow> (evs, Throws ConnectError)
            | QueryRejected \<Rightarrow> (evs @ [InsertFailed b], Returns ())
            | QueryDone \<Rightarrow> (evs @ [Inserted b], Returns ()))"
  using assms by (simp add: insertDataBatch_def)

lemma insertDataBatch_Returns:
  assumes "insertDataBatch db b evs = (evs', Returns u)" "b \<noteq> []"
  shows "\<exists>e. evs' = evs @ [e] \<and> rows_of e = b"
  using assms by (auto simp: insertDataBatch_cases split: db_reply.splits)

lemma insertDataBatch_accepts:
  assumes "db (length evs) \<noteq> ConnectRejected" "b \<noteq> []"
  shows "\<exists>e. insertDataBatch db b evs = (evs @ [e], Returns ()) \<and> rows_of e = b"
  using assms by (auto simp: insertDataBatch_cases split: db_reply.splits)

lemma on_line_header:
  "isFirstLine s \<Longrightarrow>
   on_line db line s = (s\<lparr>headers := split_on CHR '','' line, isFirstLine := False\<rparr>, Returns ())"
  by (simp add: on_line_def)

lemma on_line_row:
  assumes "on_line db l s = (s1, Returns u)" "\<not> isFirstLine s" "length (batch s) < BATCH_SIZE"
  shows "\<exists>r. row_of_line (headers s) l = Returns r \<and> headers s1 = headers s \<and> \<not> isFirstLine s1
           \<and> ((batch s1 = batch s @ [r] \<and> events s1 = events s \<and> length (batch s1) < BATCH_SIZE)
              \<or> (batch s1 = [] \<and> length (batch s @ [r]) = BATCH_SIZE
                  \<and> (\<exists>e. events s1 = events s @ [e] \<and> rows_of e = batch s @ [r])))"
proof (cases "row_of_line (headers s) l")
  case (Returns r)
  show ?thesis
  proof (cases "length (batch s @ [r]) \<ge> BATCH_SIZE")
    case True
    then have len: "length (batch s @ [r]) = BATCH_SIZE" using assms(3) by simp
    obtain evs q where ins: "insertDataBatch db (batch s @ [r]) (events s) = (evs, q)"
      by (cases "insertDataBatch db (batch s @ [r]) (events s)") auto
    have q: "q = Returns ()" "s1 = s\<lparr>batch := [], events := evs\<rparr>"
      using assms(1,2) Returns True ins by (cases q; simp add: on_line_def Let_def)+
    from insertDataBatch_Returns[OF ins[unfolded q(1)]]
    obtain e where "evs = events s @ [e]" "rows_of e = batch s @ [r]" by auto
    then show ?thesis using Returns q len assms(2) by simp
  next
    case False
    then have "s1 = s\<lparr>batch := batch s @ [r]\<rparr>"
      using assms(1,2) Returns by (simp add: on_line_def Let_def)
    then show ?thesis using Returns False assms(2) by simp
  qed
next
  case (Throws e)
  then show ?thesis using assms by (simp add: on_line_def)
next
  case Unmodelled
  then show ?thesis using assms by (simp add: on_line_def)
qed

lemma for_await_Cons_Returns:
  assumes "for_await db (l # ls) s = (s', Returns u)"
  shows "\<exists>s1. on_line db l s = (s1, Returns ()) \<and> for_await db ls s1 = (s', Returns u)"
proof -
  obtain s1 q where o: "on_line db l s = (s1, q)" by (cases "on_line db l s") auto
  show ?thesis using assms o by (cases q) auto
qed

lemma for_await_rows:
  assumes "for_await db ls s = (s', Returns u)" "\<not> isFirstLine s" "length (batch s) < BATCH_SIZE"
  shows "\<exists>rs new. map (row_of_line (headers s)) ls = map Returns rs
           \<and> events s' = events s @ new
           \<and> (\<forall>e\<in>set new. length (rows_of e) = BATCH_SIZE)
           \<and> concat (map rows_of new) @ batch s' = batch s @ rs
           \<and> length (batch s') < BATCH_SIZE"
  using assms
proof (induction ls arbitrary: s)
  case Nil
  then show ?case by simp
next
  case (Cons l ls)
  from for_await_Cons_Returns[OF Cons.prems(1)]
  obtain s1 where s1: "on_line db l s = (s1, Returns ())" "for_await db ls s1 = (s', Returns u)"
    by blast
  from on_line_row[OF s1(1) Cons.prems(2,3)]
  obtain r where r: "row_of_line (headers s) l = Returns r" "headers s1 = headers s"
      "\<not> isFirstLine s1"
      "(batch s1 = batch s @ [r] \<and> events s1 = events s \<and> length (batch s1) < BATCH_SIZE)
       \<or> (batch s1 = [] \<and> length (batch s @ [r]) = BATCH_SIZE
           \<and> (\<exists>e. events s1 = events s @ [e] \<and> rows_of e = batch s @ [r]))"
    by blast
  have b1: "length (batch s1) < BATCH_SIZE" using r(4) by (auto simp: BATCH_SIZE_def)
  from Cons.IH[OF s1(2) r(3) b1]
  obtain rs new where ih: "map (row_of_line (headers s1)) ls = map Returns rs"
      "events s' = events s1 @ new" "\<forall>e\<in>set new. length (rows_of e) = BATCH_SIZE"
      "concat (map rows_of new) @ batch s' = batch s1 @ rs" "length (batch s') < BATCH_SIZE"
    by blast
  from r(4) show ?case
  proof
    assume a: "batch s1 = batch s @ [r] \<and> events s1 = events s \<and> length (batch s1) < BATCH_SIZE"
    show ?thesis
      by (rule exI[of _ "r # rs"], rule exI[of _ new]) (use a ih r in simp)
  next
    assume a: "batch s1 = [] \<and> length (batch s @ [r]) = BATCH_SIZE
           \<and> (\<exists>e. events s1 = events s @ [e] \<and> rows_of e = batch s @ [r])"
    then obtain e where e: "events s1 = events s @ [e]" "rows_of e = batch s @ [r]" by blast
    show ?thesis
      by (rule exI[of _ "r # rs"], rule exI[of _ "e # new"]) (use a e ih r in simp)
  qed
qed

lemma upload_completed:
  assumes "snd (upload db (header # rows)) = Returns Status200"
  shows "\<exists>rs full. map (row_of_line (split_on CHR '','' header)) rows = map Returns rs
           \<and> (\<forall>e\<in>set full. length (rows_of e) = BATCH_SIZE)
           \<and> length rs = BATCH_SIZE * length full + length rs mod BATCH_SIZE
           \<and> map rows_of (fst (upload db (header # rows)))
               = map rows_of full @ (if length rs mod BATCH_SIZE = 0 then []
                                      else [drop (BATCH_SIZE * length full) rs])
           \<and> concat (map rows_of (fst (upload db (header # rows)))) = rs"
proof -
  define s0 where "s0 = \<lparr>headers = split_on CHR '','' header, isFirstLine = False,
                          batch = [], events = []\<rparr>"
  obtain s' q where fa: "for_await db rows s0 = (s', q)" by (cases "for_await db rows s0") auto
  have up: "upload db (header # rows) =
              (case q of Returns u \<Rightarrow>
                 (if length (batch s') > 0
                  then (case insertDataBatch db (batch s') (events s') of (evs, r) \<Rightarrow> (evs, respond r))
                  else (events s', Returns Status200))
               | _ \<Rightarrow> (events s', respond q))"
    using fa by (cases q) (simp_all add: upload_def on_line_header s0_def)
  have q: "q = Returns ()" using assms up by (cases q) (simp_all add: respond_def)
  have "\<not> isFirstLine s0" "length (batch s0) < BATCH_SIZE" by (simp_all add: s0_def BATCH_SIZE_def)
  from for_await_rows[OF fa[unfolded q] this]
  obtain rs new where inv: "map (row_of_line (headers s0)) rows = map Returns rs"
      "events s' = events s0 @ new" "\<forall>e\<in>set new. length (rows_of e) = BATCH_SIZE"
      "concat (map rows_of new) @ batch s' = batch s0 @ rs" "length (batch s') < BATCH_SIZE"
    by blast
  have ev: "events s' = new" and cc: "concat (map rows_of new) @ batch s' = rs"
    using inv(2,4) by (simp_all add: s0_def)
  have lc: "length (concat (map rows_of new)) = BATCH_SIZE * length new"
    using inv(3) by (induction new) auto
  have len: "length rs = BATCH_SIZE * length new + length (batch s')"
    using cc lc by (metis length_append)
  have md: "length rs mod BATCH_SIZE = length (batch s')" using len inv(5) by simp
  have dr: "drop (BATCH_SIZE * length new) rs = batch s'" using cc lc by (metis append_eq_conv_conj)
  have hd: "map (row_of_line (split_on CHR '','' header)) rows = map Returns rs"
    using inv(1) by (simp add: s0_def)
  show ?thesis
  proof (cases "batch s' = []")
    case True
    then have "fst (upload db (header # rows)) = new" using up q ev by simp
    then show ?thesis using hd inv(3) len md dr cc True
      by (intro exI[of _ rs] exI[of _ new]) simp
  next
    case False
    obtain evs r where ins: "insertDataBatch db (batch s') (events s') = (evs, r)"
      by (cases "insertDataBatch db (batch s') (events s')") auto
    have "respond r = Returns Status200" using assms up q False ins by simp
    then have r: "r = Returns ()" by (cases r) (simp_all add: respond_def)
    from insertDataBatch_Returns[OF ins[unfolded r] False]
    obtain e where e: "evs = events s' @ [e]" "rows_of e = batch s'" by blast
    have "fst (upload db (header # rows)) = new @ [e]" using up q False ins e ev by simp
    then show ?thesis using hd inv(3) len md dr cc False e
      by (intro exI[of _ rs] exI[of _ new]) simp
  qed
qed

lemma on_line_accepts:
  assumes "\<not> isFirstLine s" "row_of_line (headers s) l = Returns r" "\<forall>n. db n \<noteq> ConnectRejected"
  shows "\<exists>s1. on_line db l s = (s1, Returns ()) \<and> \<not> isFirstLine s1 \<and> headers s1 = headers s"
proof (cases "length (batch s @ [r]) \<ge> BATCH_SIZE")
  case True
  have "db (length (events s)) \<noteq> ConnectRejected" using assms(3) by simp
  with insertDataBatch_accepts[of db "events s" "batch s @ [r]"]
  obtain e where "insertDataBatch db (batch s @ [r]) (events s) = (events s @ [e], Returns ())"
    by auto
  then show ?thesis using assms(1,2) True by (simp add: on_line_def Let_def)
next
  case False
  then show ?thesis using assms(1,2) by (simp add: on_line_def Let_def)
qed

lemma for_await_accepts:
  assumes "\<not> isFirstLine s" "\<forall>l\<in>set ls. \<exists>r. row_of_line (headers s) l = Returns r"
    "\<forall>n. db n \<noteq> ConnectRejected"
  shows "\<exists>s'. for_await db ls s = (s', Returns ())"
  using assms(1,2)
proof (induction ls arbitrary: s)
  case Nil
  then show ?case by simp
next
  case (Cons l ls)
  then obtain r where r: "row_of_line (headers s) l = Returns r" by auto
  from on_line_accepts[OF Cons.prems(1) r assms(3)]
  obtain s1 where s1: "on_line db l s = (s1, Returns ())" "\<not> isFirstLine s1" "headers s1 = headers s"
    by blast
  have "\<forall>l\<in>set ls. \<exists>r. row_of_line (headers s1) l = Returns r" using Cons.prems(2) s1(3) by simp
  from Cons.IH[OF s1(2) this] show ?case using s1(1) by simp
qed

lemma upload_accepts:
  assumes "\<forall>l\<in>set rows. \<exists>r. row_of_line (split_on CHR '','' header) l = Returns r"
    "\<forall>n. db n \<noteq> ConnectRejected"
  shows "snd (upload db (header # rows)) = Returns Status200"
proof -
  define s0 where "s0 = \<lparr>headers = split_on CHR '','' header, isFirstLine = False,
                          batch = [], events = []\<rparr>"
  have "\<not> isFirstLine s0" "\<forall>l\<in>set rows. \<exists>r. row_of_line (headers s0) l = Returns r"
    using assms(1) by (simp_all add: s0_def)
  from for_await_accepts[OF this assms(2)]
  obtain s' where fa: "for_await db rows s0 = (s', Returns ())" by blast
  show ?thesis
  proof (cases "batch s' = []")
    case True
    then show ?thesis using fa by (simp add: upload_def on_line_header s0_def)
  next
    case False
    have "db (length (events s')) \<noteq> ConnectRejected" using assms(2) by simp
    with insertDataBatch_accepts[of db "events s'" "batch s'"] False
    obtain e where "insertDataBatch db (batch s') (events s') = (events s' @ [e], Returns ())"
      by auto
    then show ?thesis using fa False
      by (simp add: upload_def on_line_header s0_def respond_def)
  qed
qed

lemma row_of_line_age_7: "row_of_line (split_on CHR '','' ''age'') ''7''
   = Returns \<lparr> name = Str [], age = Num 7, address = Null, additional_info = Obj [] \<rparr>"
  by (simp add: eval)

lemma insertDataBatch_sim:
  assumes "db (length evs) \<noteq> ConnectRejected" "db' (length evs') \<noteq> ConnectRejected"
    "map rows_of evs = map rows_of evs'"
  shows "\<exists>e1 e2. insertDataBatch db b evs = (e1, Returns ())
           \<and> insertDataBatch db' b evs' = (e2, Returns ())
           \<and> map rows_of e1 = map rows_of e2"
proof (cases "b = []")
  case True
  then show ?thesis using assms(3) by (simp add: insertDataBatch_def)
next
  case False
  from insertDataBatch_accepts[of db evs b] assms(1) False
  obtain e where e: "insertDataBatch db b evs = (evs @ [e], Returns ())" "rows_of e = b" by auto
  from insertDataBatch_accepts[of db' evs' b] assms(2) False
  obtain e' where e': "insertDataBatch db' b evs' = (evs' @ [e'], Returns ())" "rows_of e' = b" by auto
  show ?thesis using e e' assms(3) by simp
qed

lemma on_line_sim:
  assumes "\<forall>n. db n \<noteq> ConnectRejected" "\<forall>n. db' n \<noteq> ConnectRejected"
    and "headers s = headers s'" "isFirstLine s = isFirstLine s'" "batch s = batch s'"
    and "map rows_of (events s) = map rows_of (events s')"
  shows "\<exists>t t' q. on_line db l s = (t, q) \<and> on_line db' l s' = (t', q)
           \<and> headers t = headers t' \<and> isFirstLine t = isFirstLine t' \<and> batch t = batch t'
           \<and> map rows_of (events t) = map rows_of (events t')"
proof (cases "isFirstLine s")
  case True
  then show ?thesis using assms(3-6) by (simp add: on_line_header)
next
  case nf: False
  then have nf': "\<not> isFirstLine s'" using assms(4) by simp
  show ?thesis
  proof (cases "row_of_line (headers s) l")
    case (Returns r)
    then have R': "row_of_line (headers s') l = Returns r" using assms(3) by simp
    show ?thesis
    proof (cases "length (batch s @ [r]) \<ge> BATCH_SIZE")
      case True
      then have T': "length (batch s' @ [r]) \<ge> BATCH_SIZE" using assms(5) by simp
      have "db (length (events s)) \<noteq> ConnectRejected" "db' (length (events s')) \<noteq> ConnectRejected"
        using assms(1,2) by simp_all
      with insertDataBatch_sim[of db "events s" db' "events s'" "batch s @ [r]"] assms(6)
      obtain e1 e2 where i: "insertDataBatch db (batch s @ [r]) (events s) = (e1, Returns ())"
          "insertDataBatch db' (batch s @ [r]) (events s') = (e2, Returns ())"
          "map rows_of e1 = map rows_of e2" by blast
      have i': "insertDataBatch db' (batch s' @ [r]) (events s') = (e2, Returns ())"
        using i(2) assms(5) by simp
      show ?thesis using nf nf' Returns R' True T' i(1,3) i' assms(3-5)
        by (simp add: on_line_def Let_def)
    next
      case False
      then have F': "\<not> length (batch s' @ [r]) \<ge> BATCH_SIZE" using assms(5) by simp
      show ?thesis using nf nf' Returns R' False F' assms(3-6)
        by (simp add: on_line_def Let_def)
    qed
  next
    case (Throws e)
    then have "row_of_line (headers s') l = Throws e" using assms(3) by simp
    then show ?thesis using nf nf' Throws assms(3-6) by (simp add: on_line_def)
  next
    case Unmodelled
    then have "row_of_line (headers s') l = Unmodelled" using assms(3) by simp
    then show ?thesis using nf nf' Unmodelled assms(3-6) by (simp add: on_line_def)
  qed
qed

lemma for_await_sim:
  assumes "\<forall>n. db n \<noteq> ConnectRejected" "\<forall>n. db' n \<noteq> ConnectRejected"
    and "headers s = headers s'" "isFirstLine s = isFirstLine s'" "batch s = batch s'"
    and "map rows_of (events s) = map rows_of (events s')"
  shows "\<exists>t t' q. for_await db ls s = (t, q) \<and> for_await db' ls s' = (t', q)
           \<and> batch t = batch t' \<and> map rows_of (events t) = map rows_of (events t')"
  using assms(3-6)
proof (induction ls arbitrary: s s')
  case Nil
  then show ?case by simp
next
  case (Cons l ls)
  from on_line_sim[OF assms(1,2) Cons.prems, of l]
  obtain t t' q where o: "on_line db l s = (t, q)" "on_line db' l s' = (t', q)"
      "headers t = headers t'" "isFirstLine t = isFirstLine t'" "batch t = batch t'"
      "map rows_of (events t) = map rows_of (events t')" by blast
  show ?case
  proof (cases q)
    case (Returns u)
    from Cons.IH[OF o(3-6)] show ?thesis using o(1,2) Returns by simp
  next
    case (Throws e)
    then show ?thesis using o by simp
  next
    case Unmodelled
    then show ?thesis using o by simp
  qed
qed

lemma upload_sim:
  assumes "\<forall>n. db n \<noteq> ConnectRejected" "\<forall>n. db' n \<noteq> ConnectRejected"
  shows "snd (upload db ls) = snd (upload db' ls)
       \<and> map rows_of (fst (upload db ls)) = map rows_of (fst (upload db' ls))"
proof -
  define s0 where "s0 = \<lparr>headers = [], isFirstLine = True, batch = [], events = []\<rparr>"
  from for_await_sim[OF assms, of s0 s0 ls]
  obtain t t' q where f: "for_await db ls s0 = (t, q)" "for_await db' ls s0 = (t', q)"
      "batch t = batch t'" "map rows_of (events t) = map rows_of (events t')" by auto
  show ?thesis
  proof (cases q)
    case (Returns u)
    have "db (length (events t)) \<noteq> ConnectRejected" "db' (length (events t')) \<noteq> ConnectRejected"
      using assms by simp_all
    with insertDataBatch_sim[of db "events t" db' "events t'" "batch t"] f(4)
    obtain e1 e2 where i: "insertDataBatch db (batch t) (events t) = (e1, Returns ())"
        "insertDataBatch db' (batch t) (events t') = (e2, Returns ())"
        "map rows_of e1 = map rows_of e2" by blast
    show ?thesis using f Returns i unfolding upload_def s0_def[symmetric]
      by (simp add: respond_def)
  next
    case (Throws e)
    then show ?thesis using f unfolding upload_def s0_def[symmetric] by (simp add: respond_def)
  next
    case Unmodelled
    then show ?thesis using f unfolding upload_def s0_def[symmetric] by (simp add: respond_def)
  qed
qed

lemma insertDataBatch_flags:
  assumes "map failed evs = map (\<lambda>n. db n = QueryRejected) [0..<length evs]"
  shows "map failed (fst (insertDataBatch db b evs))
         = map (\<lambda>n. db n = QueryRejected) [0..<length (fst (insertDataBatch db b evs))]"
  using assms by (auto simp: insertDataBatch_def split: db_reply.splits)

lemma on_line_flags:
  assumes "map failed (events s) = map (\<lambda>n. db n = QueryRejected) [0..<length (events s)]"
  shows "map failed (events (fst (on_line db l s)))
         = map (\<lambda>n. db n = QueryRejected) [0..<length (events (fst (on_line db l s)))]"
proof (cases "isFirstLine s")
  case True
  then show ?thesis using assms by (simp add: on_line_header)
next
  case False
  show ?thesis
  proof (cases "row_of_line (headers s) l")
    case (Returns r)
    obtain evs q where i: "insertDataBatch db (batch s @ [r]) (events s) = (evs, q)"
      by (cases "insertDataBatch db (batch s @ [r]) (events s)") auto
    have "map failed evs = map (\<lambda>n. db n = QueryRejected) [0..<length evs]"
      using insertDataBatch_flags[OF assms, of "batch s @ [r]"] i by simp
    then show ?thesis using False Returns i assms
      by (cases q) (simp_all add: on_line_def Let_def)
  next
    case (Throws e)
    then show ?thesis using False assms by (simp add: on_line_def)
  next
    case Unmodelled
    then show ?thesis using False assms by (simp add: on_line_def)
  qed
qed

lemma for_await_flags:
  assumes "map failed (events s) = map (\<lambda>n. db n = QueryRejected) [0..<length (events s)]"
  shows "map failed (events (fst (for_await db ls s)))
         = map (\<lambda>n. db n = QueryRejected) [0..<length (events (fst (for_await db ls s)))]"
  using assms
proof (induction ls arbitrary: s)
  case Nil
  then show ?case by simp
next
  case (Cons l ls)
  obtain t q where o: "on_line db l s = (t, q)" by (cases "on_line db l s") auto
  have t: "map failed (events t) = map (\<lambda>n. db n = QueryRejected) [0..<length (events t)]"
    using on_line_flags[OF Cons.prems, of l] o by simp
  show ?case using o t Cons.IH[OF t] by (cases q) simp_all
qed

lemma upload_flags:
  "map failed (fst (upload db ls))
   = map (\<lambda>n. db n = QueryRejected) [0..<length (fst (upload db ls))]"
proof -
  define s0 where "s0 = \<lparr>headers = [], isFirstLine = True, batch = [], events = []\<rparr>"
  obtain t q where f: "for_await db ls s0 = (t, q)" by (cases "for_await db ls s0") auto
  have "map failed (events s0) = map (\<lambda>n. db n = QueryRejected) [0..<length (events s0)]"
    by (simp add: s0_def)
  from for_await_flags[OF this, of ls]
  have t: "map failed (events t) = map (\<lambda>n. db n = QueryRejected) [0..<length (events t)]"
    using f by simp
  obtain evs r where i: "insertDataBatch db (batch t) (events t) = (evs, r)"
    by (cases "insertDataBatch db (batch t) (events t)") auto
  have e: "map failed evs = map (\<lambda>n. db n = QueryRejected) [0..<length evs]"
    using insertDataBatch_flags[OF t, of "batch t"] i by simp
  show ?thesis using f t i e unfolding upload_def s0_def[symmetric]
    by (cases q) simp_all
qed

lemma for_await_append:
  "for_await db (xs @ ys) s =
     (case for_await db xs s of (s', Returns u) \<Rightarrow> for_await db ys s' | (s', r) \<Rightarrow> (s', r))"
proof (induction xs arbitrary: s)
  case Nil
  then show ?case by simp
next
  case (Cons x xs)
  obtain t q where o: "on_line db x s = (t, q)" by (cases "on_line db x s") auto
  show ?case using o Cons by (cases q) simp_all
qed

lemma for_await_no_flush:
  assumes "\<not> isFirstLine s" "\<forall>l\<in>set ls. row_of_line (headers s) l = Returns r"
    and "length (batch s) + length ls < BATCH_SIZE"
  shows "for_await db ls s = (s\<lparr>batch := batch s @ replicate (length ls) r\<rparr>, Returns ())"
  using assms
proof (induction ls arbitrary: s)
  case Nil
  then show ?case by simp
next
  case (Cons l ls)
  have r: "row_of_line (headers s) l = Returns r" using Cons.prems(2) by simp
  have o: "on_line db l s = (s\<lparr>batch := batch s @ [r]\<rparr>, Returns ())"
    using Cons.prems(1,3) r by (simp add: on_line_def Let_def)
  have "for_await db ls (s\<lparr>batch := batch s @ [r]\<rparr>)
        = (s\<lparr>batch := batch s @ [r]\<rparr>\<lparr>batch := batch (s\<lparr>batch := batch s @ [r]\<rparr>)
             @ replicate (length ls) r\<rparr>, Returns ())"
    using Cons.prems by (intro Cons.IH) simp_all
  then show ?case using o by (simp add: replicate_app_Cons_same)
qed

lemma for_await_full_batch:
  assumes "\<not> isFirstLine s" "\<forall>l\<in>set ls. row_of_line (headers s) l = Returns r"
    and "batch s = []" "length ls = BATCH_SIZE"
  shows "for_await db (ls @ rest) s =
           (case db (length (events s)) of
              ConnectRejected \<Rightarrow> (s\<lparr>batch := replicate BATCH_SIZE r\<rparr>, Throws ConnectError)
            | QueryRejected \<Rightarrow>
                for_await db rest
                  (s\<lparr>batch := [], events := events s @ [InsertFailed (replicate BATCH_SIZE r)]\<rparr>)
            | QueryDone \<Rightarrow>
                for_await db rest
                  (s\<lparr>batch := [], events := events s @ [Inserted (replicate BATCH_SIZE r)]\<rparr>))"
proof -
  have ne: "ls \<noteq> []" using assms(4) by (auto simp: BATCH_SIZE_def)
  define ls' where "ls' = butlast ls"
  define l where "l = last ls"
  have ls: "ls = ls' @ [l]" using ne by (simp add: ls'_def l_def)
  have len: "Suc (length ls') = BATCH_SIZE" using assms(4) ls by simp
  define s1 where "s1 = s\<lparr>batch := replicate (length ls') r\<rparr>"
  have "for_await db ls' s = (s\<lparr>batch := batch s @ replicate (length ls') r\<rparr>, Returns ())"
    using assms(1,2,3) len ls by (intro for_await_no_flush) auto
  then have a1: "for_await db ls' s = (s1, Returns ())" using assms(3) by (simp add: s1_def)
  have rl: "row_of_line (headers s1) l = Returns r" using assms(2) ls by (simp add: s1_def)
  have full: "replicate (length ls') r @ [r] = replicate BATCH_SIZE r"
    using len by (metis replicate_Suc replicate_append_same)
  have a2: "on_line db l s1 =
              (case db (length (events s)) of
                 ConnectRejected \<Rightarrow> (s\<lparr>batch := replicate BATCH_SIZE r\<rparr>, Throws ConnectError)
               | QueryRejected \<Rightarrow>
                   (s\<lparr>batch := [], events := events s @ [InsertFailed (replicate BATCH_SIZE r)]\<rparr>,
                    Returns ())
               | QueryDone \<Rightarrow>
                   (s\<lparr>batch := [], events := events s @ [Inserted (replicate BATCH_SIZE r)]\<rparr>,
                    Returns ()))"
  proof -
    have nf: "\<not> isFirstLine s1" using assms(1) by (simp add: s1_def)
    have b: "batch s1 @ [r] = replicate BATCH_SIZE r" using full by (simp add: s1_def)
    have ge: "length (replicate BATCH_SIZE r) \<ge> BATCH_SIZE" by simp
    have pos: "0 < BATCH_SIZE" "BATCH_SIZE \<noteq> 0" by (simp_all add: BATCH_SIZE_def)
    show ?thesis
      using nf rl
      by (cases "db (length (events s))")
         (simp_all add: on_line_def Let_def b ge pos insertDataBatch_def, simp_all add: s1_def)
  qed
  show ?thesis
    unfolding ls
    by (cases "db (length (events s))") (simp_all add: for_await_append a1 a2)
qed

lemma upload_connection_refused_at_second_batch:
  assumes "row_of_line (split_on CHR '','' header) l = Returns r"
    and "db 0 = QueryDone" "db (Suc 0) = ConnectRejected"
  shows "upload db (header # replicate 2500 l)
         = ([Inserted (replicate 1000 r)], Returns Status500)"
proof -
  define s0 where "s0 = \<lparr>headers = split_on CHR '','' header, isFirstLine = False,
                          batch = [], events = []\<rparr>"
  define s1 where "s1 = s0\<lparr>batch := [], events := events s0 @ [Inserted (replicate BATCH_SIZE r)]\<rparr>"
  have sp: "replicate 2500 l
            = replicate BATCH_SIZE l @ (replicate BATCH_SIZE l @ replicate 500 l)"
    by (simp add: BATCH_SIZE_def replicate_add[symmetric])
  have rows0: "\<forall>x\<in>set (replicate BATCH_SIZE l). row_of_line (headers s0) x = Returns r"
    using assms(1) by (simp add: s0_def)
  have rows1: "\<forall>x\<in>set (replicate BATCH_SIZE l). row_of_line (headers s1) x = Returns r"
    using assms(1) by (simp add: s0_def s1_def)
  have e0: "db (length (events s0)) = QueryDone" using assms(2) by (simp add: s0_def)
  have e1: "db (length (events s1)) = ConnectRejected" using assms(3) by (simp add: s0_def s1_def)
  have a1: "for_await db (replicate BATCH_SIZE l @ (replicate BATCH_SIZE l @ replicate 500 l)) s0
            = for_await db (replicate BATCH_SIZE l @ replicate 500 l) s1"
    using for_await_full_batch[of s0 "replicate BATCH_SIZE l" r db
            "replicate BATCH_SIZE l @ replicate 500 l"] rows0 e0
    by (simp add: s0_def s1_def)
  have a2: "for_await db (replicate BATCH_SIZE l @ replicate 500 l) s1
            = (s1\<lparr>batch := replicate BATCH_SIZE r\<rparr>, Throws ConnectError)"
    using for_await_full_batch[of s1 "replicate BATCH_SIZE l" r db "replicate 500 l"] rows1 e1
    by (simp add: s0_def s1_def)
  have fa: "for_await db (replicate 2500 l) s0
            = (s1\<lparr>batch := replicate BATCH_SIZE r\<rparr>, Throws ConnectError)"
    by (simp only: sp a1 a2)
  have up: "upload db (header # replicate 2500 l)
            = (case for_await db (replicate 2500 l) s0 of
                 (s, Returns u) \<Rightarrow>
                   (if length (batch s) > 0
                    then (case insertDataBatch db (batch s) (events s) of (evs, r) \<Rightarrow> (evs, respond r))
                    else (events s, Returns Status200))
               | (s, r) \<Rightarrow> (events s, respond r))"
    by (simp add: upload_def on_line_header s0_def)
  show ?thesis
    unfolding up fa by (simp add: respond_def s1_def s0_def BATCH_SIZE_def)
qed

section \<open>Consequences for the claims\<close>

lemma upload_sizes:
  assumes "snd (upload db (header # rows)) = Returns Status200"
  shows "map (\<lambda>e. length (rows_of e)) (fst (upload db (header # rows)))
         = replicate (length rows div BATCH_SIZE) BATCH_SIZE
           @ (if length rows mod BATCH_SIZE = 0 then [] else [length rows mod BATCH_SIZE])"
proof -
  from upload_completed[OF assms]
  obtain rs full where c: "map (row_of_line (split_on CHR '','' header)) rows = map Returns rs"
      "\<forall>e\<in>set full. length (rows_of e) = BATCH_SIZE"
      "length rs = BATCH_SIZE * length full + length rs mod BATCH_SIZE"
      "map rows_of (fst (upload db (header # rows)))
         = map rows_of full @ (if length rs mod BATCH_SIZE = 0 then []
                                else [drop (BATCH_SIZE * length full) rs])"
    by blast
  have n: "length rs = length rows" using c(1) by (metis length_map)
  have B: "0 < BATCH_SIZE" by (simp add: BATCH_SIZE_def)
  have "length rs div BATCH_SIZE = length full"
  proof -
    have "(BATCH_SIZE * length full + length rs mod BATCH_SIZE) div BATCH_SIZE = length full"
      using B by simp
    then show ?thesis using c(3) by simp
  qed
  then have k: "length full = length rows div BATCH_SIZE" using n by simp
  have f: "map (\<lambda>e. length (rows_of e)) full = replicate (length full) BATCH_SIZE"
    using c(2) by (induction full) auto
  have d: "length (drop (BATCH_SIZE * length full) rs) = length rs mod BATCH_SIZE"
    using c(3) by simp
  have "map (\<lambda>e. length (rows_of e)) (fst (upload db (header # rows)))
        = map length (map rows_of (fst (upload db (header # rows))))"
    by (simp add: comp_def)
  also have "\<dots> = map (\<lambda>e. length (rows_of e)) full
                  @ (if length rs mod BATCH_SIZE = 0 then [] else [length rs mod BATCH_SIZE])"
    using d by (simp add: c(4) comp_def)
  finally show ?thesis using f k n by simp
qed

lemma row_object_take: "row_object hs vals = row_object hs (take (length hs) vals)"
proof (cases "length hs \<le> length vals")
  case True
  then have "0 + length hs \<le> length (take (length hs) vals)" by simp
  from assign_columns_extra[OF this, of "drop (length hs) vals" "[]"]
  show ?thesis by (simp add: row_object_def)
next
  case False
  then show ?thesis by simp
qed

lemma setNestedProperty_age:
  assumes "v \<noteq> []"
  shows "setNestedProperty obj ''age'' (Some v) = Returns (AList.update ''age'' (parseInt v) obj)"
  using assms by (simp add: setNestedProperty_def stored_value_def put_prop_def props_of_def)

lemma setNestedProperty_leaf:
  assumes "leaf_on_path (split_on CHR ''.'' path) obj = Some (c, n)" "truthy c"
    and "list_all plain_key (split_on CHR ''.'' path)" "v \<noteq> Some []"
  shows "setNestedProperty obj path v = (if n = 1 then Returns obj else Throws TypeError)"
  using assms set_in_leaf[OF assms(1,2,3), of "stored_value path v"]
  by (simp add: setNestedProperty_def props_of_def)

lemma split_on_nonempty: "split_on c s \<noteq> []"
  by (cases s) (auto simp: Let_def)

lemma setNestedProperty_stores:
  assumes "list_all plain_key (split_on CHR ''.'' path)" "v \<noteq> Some []"
    and "case leaf_on_path (split_on CHR ''.'' path) obj of None \<Rightarrow> True | Some (c, n) \<Rightarrow> \<not> truthy c"
  shows "\<exists>obj'. setNestedProperty obj path v = Returns obj'
           \<and> lookup_path (split_on CHR ''.'' path) (Obj obj') = stored_value path v"
proof -
  from set_in_stores[OF split_on_nonempty assms(1,3), of "stored_value path v"]
  obtain ps' where "set_in (split_on CHR ''.'' path) (stored_value path v) (Obj obj) = Returns (Obj ps')"
      "lookup_path (split_on CHR ''.'' path) (Obj ps') = stored_value path v" by blast
  then show ?thesis using assms(2) by (simp add: setNestedProperty_def props_of_def)
qed


section \<open>The catch-all column\<close>

text \<open>
  Claim C1. The specification wants \<^verbatim>\<open>additional_info\<close> to be null when the row object has no
  key besides \<^verbatim>\<open>name\<close>, \<^verbatim>\<open>age\<close> and \<^verbatim>\<open>address\<close>. The code writes
  \<^verbatim>\<open>additional_info || null\<close>, but the rest object of the destructuring is an object and
  every object is truthy, so the null is never taken: for the header \<^verbatim>\<open>age\<close> and the line
  \<^verbatim>\<open>34\<close> the column holds the empty object. What does hold for every row object is the second
  half of the claim: the column is the object of the remaining own keys, in their shape.
\<close>

theorem additional_info_is_never_null:
  "row_of_line (split_on CHR '','' ''age'') ''34''
     = Returns \<lparr> name = Str [], age = Num 34, address = Null, additional_info = Obj [] \<rparr>
   \<and> and_then (transformForDb obj) (\<lambda>r. Returns (additional_info r))
     = and_then (transformForDb obj)
         (\<lambda>r. Returns (Obj (rest_props [''name'', ''age'', ''address''] obj)))"
proof
  show "row_of_line (split_on CHR '','' ''age'') ''34''
     = Returns \<lparr> name = Str [], age = Num 34, address = Null, additional_info = Obj [] \<rparr>"
    by (simp add: eval)
  show "and_then (transformForDb obj) (\<lambda>r. Returns (additional_info r))
     = and_then (transformForDb obj)
         (\<lambda>r. Returns (Obj (rest_props [''name'', ''age'', ''address''] obj)))"
    by (cases "transformForDb obj") (auto dest: transformForDb_fields)
qed

section \<open>Lines shorter than the header\<close>

text \<open>
  Claim C2. The specification treats a missing trailing value like an empty one. In the code
  \<^verbatim>\<open>values[index]\<close> is then \<^verbatim>\<open>undefined\<close>, which is not \<^verbatim>\<open>=== ''\<close>: the path is created and
  its last key is set to \<^verbatim>\<open>undefined\<close>. With the header \<^verbatim>\<open>hobby,address.city\<close> the line
  \<^verbatim>\<open>chess\<close> gives the address \<^verbatim>\<open>{city: undefined}\<close>, while \<^verbatim>\<open>chess,\<close> gives the address null; with
  the header \<^verbatim>\<open>address.city,hobby\<close> the line \<^verbatim>\<open>Paris\<close> gives an entry \<^verbatim>\<open>hobby\<close> in
  additional_info, while \<^verbatim>\<open>Paris,\<close> gives none.
\<close>

theorem missing_value_is_stored_as_undefined:
  "row_of_line (split_on CHR '','' ''hobby,address.city'') ''chess''
     = Returns \<lparr> name = Str [], age = Num 0, address = Obj [(''city'', Undefined)],
                 additional_info = Obj [(''hobby'', Str ''chess'')] \<rparr>
   \<and> row_of_line (split_on CHR '','' ''hobby,address.city'') ''chess,''
     = Returns \<lparr> name = Str [], age = Num 0, address = Null,
                 additional_info = Obj [(''hobby'', Str ''chess'')] \<rparr>
   \<and> row_of_line (split_on CHR '','' ''address.city,hobby'') ''Paris''
     = Returns \<lparr> name = Str [], age = Num 0, address = Obj [(''city'', Str ''Paris'')],
                 additional_info = Obj [(''hobby'', Undefined)] \<rparr>
   \<and> row_of_line (split_on CHR '','' ''address.city,hobby'') ''Paris,''
     = Returns \<lparr> name = Str [], age = Num 0, address = Obj [(''city'', Str ''Paris'')],
                 additional_info = Obj [] \<rparr>"
  by (simp add: eval)

section \<open>A path through a value that is not an object\<close>

text \<open>
  Claim C3, as the specification states it, asks for a \<^verbatim>\<open>MalformedRecordError\<close>. The code has
  no such check: with the header \<^verbatim>\<open>address,address.city\<close> and the line \<^verbatim>\<open>Paris,Rome\<close> the
  second assignment returns normally and \<^verbatim>\<open>Rome\<close> is dropped.
\<close>

theorem assignment_through_leaf_is_dropped:
  "row_object (split_on CHR '','' ''address,address.city'') (split_on CHR '','' ''Paris,Rome'')
     = Returns [(''address'', Str ''Paris'')]"
  by (simp add: eval)

text \<open>
  Claim C3, amended. Let an own property on the way of a path of plain keys hold a value \<open>c\<close>
  that is not an object, with \<open>n\<close> keys after it, and let the value assigned not be the empty
  string. Then \<^verbatim>\<open>setNestedProperty\<close> raises no error of its own making. If \<open>c\<close> is truthy (a
  non-empty string, a number other than 0) and one key follows, the call returns and the row
  object is unchanged: the value is dropped. If \<open>c\<close> is truthy and more keys follow, the call
  throws a \<^verbatim>\<open>TypeError\<close>. If \<open>c\<close> is falsy (\<^verbatim>\<open>undefined\<close>, 0, \<^verbatim>\<open>NaN\<close>), it is replaced by a new
  object and the value is stored under the path.
\<close>

theorem assignment_through_leaf:
  assumes "leaf_on_path (split_on CHR ''.'' path) obj = Some (c, n)"
    and "list_all plain_key (split_on CHR ''.'' path)"
    and "v \<noteq> Some []"
  shows "(truthy c \<and> n = 1 \<longrightarrow> setNestedProperty obj path v = Returns obj)
       \<and> (truthy c \<and> n \<noteq> 1 \<longrightarrow> setNestedProperty obj path v = Throws TypeError)
       \<and> (\<not> truthy c \<longrightarrow>
            (\<exists>obj'. setNestedProperty obj path v = Returns obj'
               \<and> lookup_path (split_on CHR ''.'' path) (Obj obj') = stored_value path v))"
proof (intro conjI impI)
  assume "truthy c \<and> n = 1"
  then show "setNestedProperty obj path v = Returns obj"
    using setNestedProperty_leaf[OF assms(1) _ assms(2,3)] by simp
next
  assume "truthy c \<and> n \<noteq> 1"
  then show "setNestedProperty obj path v = Throws TypeError"
    using setNestedProperty_leaf[OF assms(1) _ assms(2,3)] by simp
next
  assume "\<not> truthy c"
  then have "case leaf_on_path (split_on CHR ''.'' path) obj of
               None \<Rightarrow> True | Some (c, n) \<Rightarrow> \<not> truthy c"
    using assms(1) by simp
  from setNestedProperty_stores[OF assms(2,3) this]
  show "\<exists>obj'. setNestedProperty obj path v = Returns obj'
          \<and> lookup_path (split_on CHR ''.'' path) (Obj obj') = stored_value path v" .
qed

theorem assignment_through_leaf_witness:
  "leaf_on_path (split_on CHR ''.'' ''address.city'') [(''address'', Str ''Paris'')]
     = Some (Str ''Paris'', 1)
   \<and> list_all plain_key (split_on CHR ''.'' ''address.city'')
   \<and> Some ''Rome'' \<noteq> Some []
   \<and> setNestedProperty [(''address'', Str ''Paris'')] ''address.city'' (Some ''Rome'')
       = Returns [(''address'', Str ''Paris'')]
   \<and> leaf_on_path (split_on CHR ''.'' ''a.b.c'') [(''a'', Str ''x'')] = Some (Str ''x'', 2)
   \<and> list_all plain_key (split_on CHR ''.'' ''a.b.c'')
   \<and> setNestedProperty [(''a'', Str ''x'')] ''a.b.c'' (Some ''y'') = Throws TypeError
   \<and> leaf_on_path (split_on CHR ''.'' ''age.x'') [(''age'', Num 0)] = Some (Num 0, 1)
   \<and> list_all plain_key (split_on CHR ''.'' ''age.x'')
   \<and> setNestedProperty [(''age'', Num 0)] ''age.x'' (Some ''5'')
       = Returns [(''age'', Obj [(''x'', Str ''5'')])]
   \<and> (\<exists>obj'. setNestedProperty [(''age'', Num 0)] ''age.x'' (Some ''5'') = Returns obj'
         \<and> lookup_path (split_on CHR ''.'' ''age.x'') (Obj obj') = Str ''5'')"
proof -
  have l1: "leaf_on_path (split_on CHR ''.'' ''address.city'') [(''address'', Str ''Paris'')]
              = Some (Str ''Paris'', 1)"
    by simp
  have p1: "list_all plain_key (split_on CHR ''.'' ''address.city'')"
    by (simp add: plain_key_def object_proto_keys_def string_proto_keys_def
        number_proto_keys_def is_digit_def)
  have v1: "Some ''Rome'' \<noteq> Some []" by simp
  have l2: "leaf_on_path (split_on CHR ''.'' ''a.b.c'') [(''a'', Str ''x'')] = Some (Str ''x'', 2)"
    by simp
  have p2: "list_all plain_key (split_on CHR ''.'' ''a.b.c'')"
    by (simp add: plain_key_def object_proto_keys_def string_proto_keys_def
        number_proto_keys_def is_digit_def)
  have v2: "Some ''y'' \<noteq> Some []" by simp
  have l3: "leaf_on_path (split_on CHR ''.'' ''age.x'') [(''age'', Num 0)] = Some (Num 0, 1)"
    by simp
  have p3: "list_all plain_key (split_on CHR ''.'' ''age.x'')"
    by (simp add: plain_key_def object_proto_keys_def string_proto_keys_def
        number_proto_keys_def is_digit_def)
  have v3: "Some ''5'' \<noteq> Some []" by simp
  have e3: "setNestedProperty [(''age'', Num 0)] ''age.x'' (Some ''5'')
              = Returns [(''age'', Obj [(''x'', Str ''5'')])]"
    by (simp add: eval)
  have s3: "stored_value ''age.x'' (Some ''5'') = Str ''5''" by (simp add: stored_value_def)
  from assignment_through_leaf[OF l3 p3 v3]
  have a3: "\<exists>obj'. setNestedProperty [(''age'', Num 0)] ''age.x'' (Some ''5'') = Returns obj'
         \<and> lookup_path (split_on CHR ''.'' ''age.x'') (Obj obj') = Str ''5''"
    by (simp only: s3) simp
  from assignment_through_leaf[OF l1 p1 v1] assignment_through_leaf[OF l2 p2 v2]
  have "setNestedProperty [(''address'', Str ''Paris'')] ''address.city'' (Some ''Rome'')
          = Returns [(''address'', Str ''Paris'')]"
    and "setNestedProperty [(''a'', Str ''x'')] ''a.b.c'' (Some ''y'') = Throws TypeError"
    by simp_all
  with l1 p1 v1 l2 p2 l3 p3 e3 a3 show ?thesis by blast
qed

section \<open>The example of the specification\<close>

text \<open>
  Claim C4. With the header \<^verbatim>\<open>name.firstName,name.lastName,age,address.city,hobby\<close> and the
  line \<^verbatim>\<open>Ann,Lee,34,Paris,chess\<close>, assigning every column and transforming the row object
  yields the row with name \<^verbatim>\<open>Ann Lee\<close>, age 34, address \<^verbatim>\<open>{city: 'Paris'}\<close> and
  additional_info \<^verbatim>\<open>{hobby: 'chess'}\<close>. With this header every five non-empty values go to
  these places: the two names, joined and trimmed, to the name, the parsed third value (0 when
  it is falsy) to the age, the fourth under \<^verbatim>\<open>city\<close> into the address and the fifth under
  \<^verbatim>\<open>hobby\<close> into additional_info.
\<close>

theorem assign_then_transform_example:
  "row_of_line
     (split_on CHR '','' ''name.firstName,name.lastName,age,address.city,hobby'')
     ''Ann,Lee,34,Paris,chess''
   = Returns \<lparr> name = Str ''Ann Lee'', age = Num 34,
               address = Obj [(''city'', Str ''Paris'')],
               additional_info = Obj [(''hobby'', Str ''chess'')] \<rparr>
   \<and> (f \<noteq> [] \<and> l \<noteq> [] \<and> a \<noteq> [] \<and> c \<noteq> [] \<and> h \<noteq> [] \<longrightarrow>
        and_then
          (row_object (split_on CHR '','' ''name.firstName,name.lastName,age,address.city,hobby'')
             [f, l, a, c, h])
          transformForDb
        = Returns \<lparr> name = Str (trim (f @ '' '' @ l)), age = or_else (parseInt a) (Num 0),
                    address = Obj [(''city'', Str c)],
                    additional_info = Obj [(''hobby'', Str h)] \<rparr>)"
proof (intro conjI impI)
  show "row_of_line
     (split_on CHR '','' ''name.firstName,name.lastName,age,address.city,hobby'')
     ''Ann,Lee,34,Paris,chess''
   = Returns \<lparr> name = Str ''Ann Lee'', age = Num 34,
               address = Obj [(''city'', Str ''Paris'')],
               additional_info = Obj [(''hobby'', Str ''chess'')] \<rparr>"
    by (simp add: eval)
next
  assume "f \<noteq> [] \<and> l \<noteq> [] \<and> a \<noteq> [] \<and> c \<noteq> [] \<and> h \<noteq> []"
  then show "and_then
          (row_object (split_on CHR '','' ''name.firstName,name.lastName,age,address.city,hobby'')
             [f, l, a, c, h])
          transformForDb
        = Returns \<lparr> name = Str (trim (f @ '' '' @ l)), age = or_else (parseInt a) (Num 0),
                    address = Obj [(''city'', Str c)],
                    additional_info = Obj [(''hobby'', Str h)] \<rparr>"
    by (simp add: setNestedProperty_def stored_value_def get_prop_def put_prop_def builtin_on_def
        object_proto_keys_def props_of_def row_object_def value_at_def transformForDb_def own_def
        opt_prop_def rest_props_def template_text_def or_else_def)
qed

theorem assign_then_transform_example_witness:
  "''Ann'' \<noteq> [] \<and> ''Lee'' \<noteq> [] \<and> ''34'' \<noteq> [] \<and> ''Paris'' \<noteq> [] \<and> ''chess'' \<noteq> []
   \<and> and_then
        (row_object (split_on CHR '','' ''name.firstName,name.lastName,age,address.city,hobby'')
           [''Ann'', ''Lee'', ''34'', ''Paris'', ''chess''])
        transformForDb
      = Returns \<lparr> name = Str ''Ann Lee'', age = Num 34,
                  address = Obj [(''city'', Str ''Paris'')],
                  additional_info = Obj [(''hobby'', Str ''chess'')] \<rparr>"
  using assign_then_transform_example[where f = "''Ann''" and l = "''Lee''" and a = "''34''" and c = "''Paris''"
      and h = "''chess''"]
  by (simp add: trim_def is_space_def parseInt_def is_digit_def digits_value_def digit_of_def
      or_else_def)

section \<open>Batches\<close>

text \<open>
  Claim C5. A run over a header line and 2500 data lines reaches the end of the stream and
  answers 200 when every line gives a row and the store hands out its connections; and every
  run that answers 200 hands exactly three batches to the store, of 1000, 1000 and 500 rows,
  whose rows, one batch after the other, are the rows of the lines in their order of reading.
\<close>

theorem batches_of_2500_rows:
  assumes "length rows = 2500"
  shows "((\<forall>l\<in>set rows. \<exists>r. row_of_line (split_on CHR '','' header) l = Returns r)
          \<and> (\<forall>n. db n \<noteq> ConnectRejected)
          \<longrightarrow> snd (upload db (header # rows)) = Returns Status200)
       \<and> (snd (upload db (header # rows)) = Returns Status200 \<longrightarrow>
            map (\<lambda>e. length (rows_of e)) (fst (upload db (header # rows))) = [1000, 1000, 500]
          \<and> map Returns (concat (map rows_of (fst (upload db (header # rows)))))
              = map (row_of_line (split_on CHR '','' header)) rows)"
proof (intro conjI impI)
  assume "(\<forall>l\<in>set rows. \<exists>r. row_of_line (split_on CHR '','' header) l = Returns r)
          \<and> (\<forall>n. db n \<noteq> ConnectRejected)"
  then show "snd (upload db (header # rows)) = Returns Status200"
    using upload_accepts by blast
next
  assume a: "snd (upload db (header # rows)) = Returns Status200"
  show "map (\<lambda>e. length (rows_of e)) (fst (upload db (header # rows))) = [1000, 1000, 500]"
    using upload_sizes[OF a] assms(1) by (simp add: BATCH_SIZE_def numeral_2_eq_2)
  from upload_completed[OF a]
  show "map Returns (concat (map rows_of (fst (upload db (header # rows)))))
          = map (row_of_line (split_on CHR '','' header)) rows"
    by auto
qed

theorem batches_of_2500_rows_witness:
  "length (replicate 2500 ''7'') = 2500
   \<and> (\<forall>n. (\<lambda>n. QueryDone) n \<noteq> ConnectRejected)
   \<and> snd (upload (\<lambda>n. QueryDone) (''age'' # replicate 2500 ''7'')) = Returns Status200
   \<and> map (\<lambda>e. length (rows_of e)) (fst (upload (\<lambda>n. QueryDone) (''age'' # replicate 2500 ''7'')))
       = [1000, 1000, 500]"
proof -
  have l: "length (replicate 2500 ''7'') = 2500" by simp
  have r: "\<forall>l\<in>set (replicate 2500 ''7''). \<exists>r. row_of_line (split_on CHR '','' ''age'') l = Returns r"
    using row_of_line_age_7 by simp
  have d: "\<forall>n. (\<lambda>n. QueryDone) n \<noteq> ConnectRejected" by simp
  from batches_of_2500_rows[OF l, of "''age''" "\<lambda>n. QueryDone"] r d l show ?thesis by blast
qed

text \<open>
  Claim C6. The specification lets no failed write of a batch abort the run. A query that the
  store rejects is caught and logged inside \<^verbatim>\<open>insertDataBatch\<close>, and the run goes on. But
  \<^verbatim>\<open>pool.connect()\<close> is awaited before the \<^verbatim>\<open>try\<close>, so a batch for which the pool gives no
  connection throws out of \<^verbatim>\<open>insertDataBatch\<close> and ends the loop: with 2500 data lines and the
  connection refused for the second batch, the run answers 500 after the first batch and the
  third batch is never handed to the store.
\<close>

theorem refused_connection_aborts_the_run:
  "upload (\<lambda>n. if n = 1 then ConnectRejected else QueryDone) (''age'' # replicate 2500 ''7'')
   = ([Inserted (replicate 1000
         \<lparr> name = Str [], age = Num 7, address = Null, additional_info = Obj [] \<rparr>)],
      Returns Status500)"
  by (rule upload_connection_refused_at_second_batch[OF row_of_line_age_7]) simp_all

text \<open>
  The failures that the \<^verbatim>\<open>catch\<close> of \<^verbatim>\<open>insertDataBatch\<close> does absorb: as long as the store hands
  out connections, the answer of the run and the batches handed to the store do not depend on
  which queries fail, and the \<open>n\<close>-th batch is recorded as failed exactly when the store
  rejects the \<open>n\<close>-th query.
\<close>

lemma rejected_query_does_not_abort:
  assumes "\<forall>n. db n \<noteq> ConnectRejected"
  shows "snd (upload db lines) = snd (upload (\<lambda>n. QueryDone) lines)
       \<and> map rows_of (fst (upload db lines)) = map rows_of (fst (upload (\<lambda>n. QueryDone) lines))
       \<and> map failed (fst (upload db lines))
           = map (\<lambda>n. db n = QueryRejected) [0..<length (fst (upload db lines))]"
proof -
  have "\<forall>n. (\<lambda>n. QueryDone) n \<noteq> ConnectRejected" by simp
  from upload_sim[OF assms this, of lines] upload_flags[of db lines]
  show ?thesis by simp
qed

lemma rejected_query_does_not_abort_example:
  "(\<forall>n. (if n = 1 then QueryRejected else QueryDone) \<noteq> ConnectRejected)
   \<and> snd (upload (\<lambda>n. if n = 1 then QueryRejected else QueryDone)
             (''age'' # replicate 2500 ''7'')) = Returns Status200
   \<and> map failed (fst (upload (\<lambda>n. if n = 1 then QueryRejected else QueryDone)
                        (''age'' # replicate 2500 ''7''))) = [False, True, False]"
proof -
  let ?db = "\<lambda>n::nat. if n = 1 then QueryRejected else QueryDone"
  let ?lines = "''age'' # replicate 2500 ''7''"
  have h: "\<forall>n. ?db n \<noteq> ConnectRejected" by simp
  have "\<forall>l\<in>set (replicate 2500 ''7''). \<exists>r. row_of_line (split_on CHR '','' ''age'') l = Returns r"
    using row_of_line_age_7 by simp
  then have s: "snd (upload ?db ?lines) = Returns Status200"
    by (rule upload_accepts) simp
  have "map (\<lambda>e. length (rows_of e)) (fst (upload ?db ?lines)) = [1000, 1000, 500]"
    using upload_sizes[OF s] by (simp add: BATCH_SIZE_def numeral_2_eq_2)
  then have "length (map (\<lambda>e. length (rows_of e)) (fst (upload ?db ?lines))) = 3" by simp
  then have n: "length (fst (upload ?db ?lines)) = 3" by simp
  have u: "[0..<3] = [0, 1, 2::nat]" by (simp add: numeral_3_eq_3 upt_rec)
  from rejected_query_does_not_abort[OF h, of ?lines]
  have "map failed (fst (upload ?db ?lines)) = map (\<lambda>n. ?db n = QueryRejected) [0..<3]"
    using n by simp
  then have "map failed (fst (upload ?db ?lines)) = [False, True, False]"
    by (simp add: u)
  then show ?thesis using s by simp
qed

section \<open>Empty values\<close>

text \<open>
  Claim C7. \<^verbatim>\<open>setNestedProperty\<close> called with the empty string returns at once and leaves
  the row object as it was, whatever the object and the path: no key is created, neither
  with an empty string nor with null. In particular the header \<^verbatim>\<open>age\<close> with an empty line
  gives the empty row object, and its row has age 0 by the default of \<^verbatim>\<open>transformForDb\<close>.
\<close>

theorem empty_value_is_noop:
  "setNestedProperty obj path (Some []) = Returns obj
   \<and> row_object (split_on CHR '','' ''age'') (split_on CHR '','' []) = Returns []
   \<and> and_then (row_of_line (split_on CHR '','' ''age'') []) (\<lambda>r. Returns (age r))
       = Returns (Num 0)"
proof (intro conjI)
  show "setNestedProperty obj path (Some []) = Returns obj"
    by (simp add: setNestedProperty_def)
  show "row_object (split_on CHR '','' ''age'') (split_on CHR '','' []) = Returns []"
    by (simp add: eval)
  show "and_then (row_of_line (split_on CHR '','' ''age'') []) (\<lambda>r. Returns (age r))
        = Returns (Num 0)"
    by (simp add: eval)
qed

section \<open>The reserved path \<^verbatim>\<open>age\<close>\<close>

text \<open>
  Claim C8, as the specification states it, has every non-numeric value of the column
  \<^verbatim>\<open>age\<close> stored as \<^verbatim>\<open>NaN\<close> and the age of the row defaulted to 0. \<^verbatim>\<open>parseInt\<close> reads the
  digits a value starts with and ignores the rest: the line \<^verbatim>\<open>12abc\<close> gives the age 12 and the
  line \<^verbatim>\<open>3.7\<close> the age 3.
\<close>

theorem age_with_trailing_text_is_not_defaulted:
  "row_of_line (split_on CHR '','' ''age'') ''12abc''
     = Returns \<lparr> name = Str [], age = Num 12, address = Null, additional_info = Obj [] \<rparr>
   \<and> row_of_line (split_on CHR '','' ''age'') ''3.7''
     = Returns \<lparr> name = Str [], age = Num 3, address = Null, additional_info = Obj [] \<rparr>"
  by (simp add: eval)

text \<open>
  Claim C8, amended. For the path \<^verbatim>\<open>age\<close> and a non-empty value, \<^verbatim>\<open>setNestedProperty\<close> stores
  \<^verbatim>\<open>parseInt(value, 10)\<close> under the key \<^verbatim>\<open>age\<close>. Every value is white space, an optional
  sign, a run of decimal digits and a rest that does not start with a digit (and, without
  sign and digits, not with white space or a sign). With no digit in that place the value
  stored is \<^verbatim>\<open>NaN\<close>; otherwise it is the signed base-10 integer of the digits, whatever the rest
  is, as an integer up to \<open>2 ^ 53\<close> in magnitude and as a rounded Number beyond. The row of a
  row object with nothing but this key has the stored value as its age when that is truthy
  and 0 otherwise, so \<^verbatim>\<open>NaN\<close> gives the age 0 without an error. For any other path the value
  stored is the string itself, and on a path of plain keys that meets no value other than
  objects the call returns and reading the path back gives that string.
\<close>

theorem age_stores_parseInt_other_paths_store_the_string:
  "(v \<noteq> [] \<longrightarrow>
      setNestedProperty obj ''age'' (Some v) = Returns (AList.update ''age'' (parseInt v) obj))
   \<and> (\<exists>ws sign ds rest. v = ws @ sign @ ds @ rest
         \<and> list_all is_space ws \<and> (sign = [] \<or> sign = ''-'' \<or> sign = ''+'')
         \<and> list_all is_digit ds \<and> (rest = [] \<or> \<not> is_digit (hd rest))
         \<and> (sign = [] \<and> ds = [] \<longrightarrow>
              rest = [] \<or> (\<not> is_space (hd rest) \<and> hd rest \<noteq> CHR ''-'' \<and> hd rest \<noteq> CHR ''+'')))
   \<and> (list_all is_space ws \<and> (sign = [] \<or> sign = ''-'' \<or> sign = ''+'')
        \<and> list_all is_digit ds \<and> (rest = [] \<or> \<not> is_digit (hd rest))
        \<and> (sign = [] \<and> ds = [] \<longrightarrow>
              rest = [] \<or> (\<not> is_space (hd rest) \<and> hd rest \<noteq> CHR ''-'' \<and> hd rest \<noteq> CHR ''+''))
        \<longrightarrow> parseInt (ws @ sign @ ds @ rest) =
              (if ds = [] then NaN
               else if int (digits_value ds) \<le> 2 ^ 53
                    then Num ((if sign = ''-'' then - 1 else 1) * int (digits_value ds))
                    else Rounded ((if sign = ''-'' then - 1 else 1) * int (digits_value ds))))
   \<and> (list_all is_digit (dec_nat n) \<and> dec_nat n \<noteq> [] \<and> digits_value (dec_nat n) = n)
   \<and> (\<bar>i\<bar> \<le> 2 ^ 53 \<longrightarrow> parseInt (dec_int i) = Num i)
   \<and> (v \<noteq> [] \<longrightarrow>
        and_then (setNestedProperty [] ''age'' (Some v)) transformForDb
        = Returns \<lparr> name = Str [], age = or_else (parseInt v) (Num 0), address = Null,
                    additional_info = Obj [] \<rparr>)
   \<and> or_else NaN (Num 0) = Num 0
   \<and> (own obj ''age'' = NaN \<longrightarrow> transformForDb obj = Returns r \<longrightarrow> age r = Num 0)
   \<and> (path \<noteq> ''age'' \<longrightarrow> stored_value path (Some v) = Str v)
   \<and> (path \<noteq> ''age'' \<and> v \<noteq> [] \<and> list_all plain_key (split_on CHR ''.'' path)
        \<and> leaf_on_path (split_on CHR ''.'' path) obj = None \<longrightarrow>
        (\<exists>obj'. setNestedProperty obj path (Some v) = Returns obj'
           \<and> lookup_path (split_on CHR ''.'' path) (Obj obj') = Str v))"
proof -
  have c1: "setNestedProperty obj ''age'' (Some v) = Returns (AList.update ''age'' (parseInt v) obj)"
    if "v \<noteq> []"
    using that by (rule setNestedProperty_age)
  have c2: "\<exists>ws sign ds rest. v = ws @ sign @ ds @ rest
         \<and> list_all is_space ws \<and> (sign = [] \<or> sign = ''-'' \<or> sign = ''+'')
         \<and> list_all is_digit ds \<and> (rest = [] \<or> \<not> is_digit (hd rest))
         \<and> (sign = [] \<and> ds = [] \<longrightarrow>
              rest = [] \<or> (\<not> is_space (hd rest) \<and> hd rest \<noteq> CHR ''-'' \<and> hd rest \<noteq> CHR ''+''))"
    by (rule parseInt_shape_exists)
  have c3: "parseInt (ws @ sign @ ds @ rest) =
              (if ds = [] then NaN
               else if int (digits_value ds) \<le> 2 ^ 53
                    then Num ((if sign = ''-'' then - 1 else 1) * int (digits_value ds))
                    else Rounded ((if sign = ''-'' then - 1 else 1) * int (digits_value ds)))"
    if "list_all is_space ws \<and> (sign = [] \<or> sign = ''-'' \<or> sign = ''+'')
        \<and> list_all is_digit ds \<and> (rest = [] \<or> \<not> is_digit (hd rest))
        \<and> (sign = [] \<and> ds = [] \<longrightarrow>
              rest = [] \<or> (\<not> is_space (hd rest) \<and> hd rest \<noteq> CHR ''-'' \<and> hd rest \<noteq> CHR ''+''))"
    using that by (intro parseInt_shape) blast+
  have c4: "list_all is_digit (dec_nat n) \<and> dec_nat n \<noteq> [] \<and> digits_value (dec_nat n) = n"
    by (simp add: dec_nat_digits dec_nat_nonempty digits_value_dec_nat)
  have c5: "parseInt (dec_int i) = Num i" if "\<bar>i\<bar> \<le> 2 ^ 53"
    using that by (rule parseInt_dec_int)
  have c6: "and_then (setNestedProperty [] ''age'' (Some v)) transformForDb
        = Returns \<lparr> name = Str [], age = or_else (parseInt v) (Num 0), address = Null,
                    additional_info = Obj [] \<rparr>"
    if "v \<noteq> []"
    using that
    by (simp add: setNestedProperty_age transformForDb_def own_def opt_prop_def rest_props_def
        template_text_def or_else_def trim_blank)
  have c7: "or_else NaN (Num 0) = Num 0" by (simp add: or_else_def)
  have c8: "age r = Num 0" if "own obj ''age'' = NaN" "transformForDb obj = Returns r"
    using that by (auto dest!: transformForDb_fields simp: or_else_def)
  have c9: "stored_value path (Some v) = Str v" if "path \<noteq> ''age''"
    using that by (simp add: stored_value_def)
  have c10: "\<exists>obj'. setNestedProperty obj path (Some v) = Returns obj'
           \<and> lookup_path (split_on CHR ''.'' path) (Obj obj') = Str v"
    if a: "path \<noteq> ''age'' \<and> v \<noteq> [] \<and> list_all plain_key (split_on CHR ''.'' path)
        \<and> leaf_on_path (split_on CHR ''.'' path) obj = None"
  proof -
    from a have "case leaf_on_path (split_on CHR ''.'' path) obj of
               None \<Rightarrow> True | Some (c, n) \<Rightarrow> \<not> truthy c" by simp
    from setNestedProperty_stores[OF _ _ this, of "Some v"] a
    show ?thesis by (simp add: stored_value_def)
  qed
  show ?thesis
    apply (intro conjI)
    subgoal using c1 by blast
    subgoal using c2 by blast
    subgoal using c3 by blast
    subgoal using c4 by blast
    subgoal using c4 by blast
    subgoal using c4 by blast
    subgoal using c5 by blast
    subgoal using c6 by blast
    subgoal using c7 by blast
    subgoal using c8 by blast
    subgoal using c9 by blast
    subgoal using c10 by blast
    done
qed

theorem age_stores_parseInt_other_paths_store_the_string_witness:
  "list_all is_space '' '' \<and> list_all is_digit ''12''
   \<and> parseInt '' -12abc'' = Num (- 12)
   \<and> parseInt ''abc'' = NaN
   \<and> setNestedProperty [] ''age'' (Some ''abc'') = Returns [(''age'', NaN)]
   \<and> and_then (setNestedProperty [] ''age'' (Some ''abc'')) transformForDb
       = Returns \<lparr> name = Str [], age = Num 0, address = Null, additional_info = Obj [] \<rparr>
   \<and> ''address.city'' \<noteq> ''age''
   \<and> list_all plain_key (split_on CHR ''.'' ''address.city'')
   \<and> leaf_on_path (split_on CHR ''.'' ''address.city'') [] = None
   \<and> (\<exists>obj'. setNestedProperty [] ''address.city'' (Some ''abc'') = Returns obj'
         \<and> lookup_path (split_on CHR ''.'' ''address.city'') (Obj obj') = Str ''abc'')"
proof -
  have s: "list_all is_space '' ''" by (simp add: is_space_def)
  have d: "list_all is_digit ''12''" by (simp add: is_digit_def)
  have r: "\<not> is_digit (hd ''abc'')" by (simp add: is_digit_def)
  have dv: "digits_value ''12'' = 12" by (simp add: digits_value_def digit_of_def)
  have r0: "\<not> is_space (hd ''abc'') \<and> hd ''abc'' \<noteq> CHR ''-'' \<and> hd ''abc'' \<noteq> CHR ''+''"
    by (simp add: is_space_def)
  have p: "list_all plain_key (split_on CHR ''.'' ''address.city'')"
    by (simp add: plain_key_def object_proto_keys_def string_proto_keys_def
        number_proto_keys_def is_digit_def)
  note t = age_stores_parseInt_other_paths_store_the_string
  note t1 = t[THEN conjunct1, rule_format]
  note t3 = t[THEN conjunct2, THEN conjunct2, THEN conjunct1, rule_format]
  note t6 = t[THEN conjunct2, THEN conjunct2, THEN conjunct2, THEN conjunct2, THEN conjunct2,
      THEN conjunct1, rule_format]
  note t10 = t[THEN conjunct2, THEN conjunct2, THEN conjunct2, THEN conjunct2, THEN conjunct2,
      THEN conjunct2, THEN conjunct2, THEN conjunct2, THEN conjunct2, rule_format]
  have ne: "''abc'' \<noteq> []" by simp
  from t3[of "'' ''" "''-''" "''12''" "''abc''"] s d r dv
  have a1: "parseInt '' -12abc'' = Num (- 12)" by simp
  from t3[of "[]" "[]" "[]" "''abc''"] r r0
  have a2: "parseInt ''abc'' = NaN" by simp
  from t1[of "''abc''" "[]"] a2
  have a3: "setNestedProperty [] ''age'' (Some ''abc'') = Returns [(''age'', NaN)]" by simp
  from t6[of "''abc''"] a2
  have a4: "and_then (setNestedProperty [] ''age'' (Some ''abc'')) transformForDb
       = Returns \<lparr> name = Str [], age = Num 0, address = Null, additional_info = Obj [] \<rparr>"
    by (simp add: or_else_def)
  have "leaf_on_path (split_on CHR ''.'' ''address.city'') [] = None" by simp
  with t10[of "''address.city''" "''abc''" "[]"] p
  have a5: "\<exists>obj'. setNestedProperty [] ''address.city'' (Some ''abc'') = Returns obj'
         \<and> lookup_path (split_on CHR ''.'' ''address.city'') (Obj obj') = Str ''abc''"
    by simp
  from s d a1 a2 a3 a4 a5 p show ?thesis by simp
qed

section \<open>Name and age of every row\<close>




section \<open>Lines longer than the header\<close>

text \<open>
  Claim C10. The row loop reads \<^verbatim>\<open>values[index]\<close> only for the indices of the header columns:
  the row of a line is the row of its first \<open>N\<close> values, \<open>N\<close> the number of header columns, and
  two lines that agree on these values have the same row, whatever follows.
\<close>

theorem extra_values_are_ignored:
  "row_object hs (split_on CHR '','' line)
     = row_object hs (take (length hs) (split_on CHR '','' line))
   \<and> row_of_line hs line
     = and_then (row_object hs (take (length hs) (split_on CHR '','' line))) transformForDb
   \<and> (take (length hs) (split_on CHR '','' line) = take (length hs) (split_on CHR '','' line')
        \<longrightarrow> row_of_line hs line = row_of_line hs line')"
proof (intro conjI impI)
  show "row_object hs (split_on CHR '','' line)
     = row_object hs (take (length hs) (split_on CHR '','' line))"
    by (rule row_object_take)
  then show "row_of_line hs line
     = and_then (row_object hs (take (length hs) (split_on CHR '','' line))) transformForDb"
    by (simp add: row_of_line_def)
next
  assume "take (length hs) (split_on CHR '','' line) = take (length hs) (split_on CHR '','' line')"
  then have "row_object hs (split_on CHR '','' line) = row_object hs (split_on CHR '','' line')"
    using row_object_take[of hs "split_on CHR '','' line"]
      row_object_take[of hs "split_on CHR '','' line'"] by simp
  then show "row_of_line hs line = row_of_line hs line'" by (simp add: row_of_line_def)
qed

theorem extra_values_are_ignored_witness:
  "take (length (split_on CHR '','' ''name.firstName,age''))
        (split_on CHR '','' ''Ann,34,chess,Paris'')
     = take (length (split_on CHR '','' ''name.firstName,age'')) (split_on CHR '','' ''Ann,34'')
   \<and> row_of_line (split_on CHR '','' ''name.firstName,age'') ''Ann,34,chess,Paris''
     = row_of_line (split_on CHR '','' ''name.firstName,age'') ''Ann,34''
   \<and> row_of_line (split_on CHR '','' ''name.firstName,age'') ''Ann,34,chess,Paris''
     = Returns \<lparr> name = Str ''Ann'', age = Num 34, address = Null, additional_info = Obj [] \<rparr>"
proof -
  have t: "take (length (split_on CHR '','' ''name.firstName,age''))
        (split_on CHR '','' ''Ann,34,chess,Paris'')
     = take (length (split_on CHR '','' ''name.firstName,age'')) (split_on CHR '','' ''Ann,34'')"
    by simp
  have r: "row_of_line (split_on CHR '','' ''name.firstName,age'') ''Ann,34''
     = Returns \<lparr> name = Str ''Ann'', age = Num 34, address = Null, additional_info = Obj [] \<rparr>"
    by (simp add: eval)
  from extra_values_are_ignored[where hs = "split_on CHR '','' ''name.firstName,age''"
         and line = "''Ann,34,chess,Paris''" and line' = "''Ann,34''",
         THEN conjunct2, THEN conjunct2] t
  have "row_of_line (split_on CHR '','' ''name.firstName,age'') ''Ann,34,chess,Paris''
     = row_of_line (split_on CHR '','' ''name.firstName,age'') ''Ann,34''"
    by blast
  with t r show ?thesis by simp
qed

end
